theory Spec2Isabelle
  imports Main "HOL-Library.Char_ord" "HOL-Library.List_Lexorder"
begin

section \<open>Exceptions\<close>

text \<open>
  The exceptions the script can meet: \<open>ValueError\<close> (a string that is not a date, a
  date constructed out of range), \<open>OverflowError\<close> (date arithmetic leaving the range of
  \<open>datetime\<close>), \<open>IndexError\<close> (indexing an empty list) and \<open>ClientError\<close> (a request
  the object store refuses). A raise is the value \<open>Inl e\<close>.
\<close>

datatype error = ValueError | OverflowError | IndexError | ClientError

section \<open>Calendar dates: the part of \<open>datetime\<close> the script uses\<close>

text \<open>
  The script only handles datetimes at midnight, so a datetime is its calendar date.
  \<open>valid_date\<close> is the range check of the \<open>datetime\<close> constructor
  (\<open>MINYEAR = 1\<close>, \<open>MAXYEAR = 9999\<close>, proleptic Gregorian calendar).
\<close>

record date =
  year :: int
  month :: int
  day :: int

definition is_leap :: "int \<Rightarrow> bool" where
  "is_leap y = (y mod 4 = 0 \<and> (y mod 100 \<noteq> 0 \<or> y mod 400 = 0))"

definition days_in_month :: "int \<Rightarrow> int \<Rightarrow> int" where
  "days_in_month y m =
     (if m = 2 then (if is_leap y then 29 else 28)
      else if m = 4 \<or> m = 6 \<or> m = 9 \<or> m = 11 then 30
      else 31)"

definition valid_date :: "date \<Rightarrow> bool" where
  "valid_date d =
     (1 \<le> year d \<and> year d \<le> 9999 \<and> 1 \<le> month d \<and> month d \<le> 12 \<and>
      1 \<le> day d \<and> day d \<le> days_in_month (year d) (month d))"

text \<open>The constructor \<open>datetime(y, m, d)\<close>: \<open>ValueError\<close> outside the range.\<close>

definition new_date :: "int \<Rightarrow> int \<Rightarrow> int \<Rightarrow> error + date" where
  "new_date y m d =
     (if valid_date \<lparr>year = y, month = m, day = d\<rparr>
      then Inr \<lparr>year = y, month = m, day = d\<rparr>
      else Inl ValueError)"

text \<open>\<open>dt.replace(day=v)\<close> and \<open>dt.replace(month=m, year=y)\<close> build a new datetime.\<close>

definition replace_day :: "date \<Rightarrow> int \<Rightarrow> error + date" where
  "replace_day dt v = new_date (year dt) (month dt) v"

definition replace_month_year :: "date \<Rightarrow> int \<Rightarrow> int \<Rightarrow> error + date" where
  "replace_month_year dt m y = new_date y m (day dt)"

text \<open>
  \<open>dt - timedelta(days=n)\<close> for \<open>n \<ge> 0\<close> is the \<open>n\<close>-th calendar day before \<open>dt\<close>;
  \<open>OverflowError\<close> when that day would lie before 0001-01-01.
\<close>

definition prev_day :: "date \<Rightarrow> error + date" where
  "prev_day d =
     (if 1 < day d then Inr (d\<lparr>day := day d - 1\<rparr>)
      else if 1 < month d
        then Inr \<lparr>year = year d, month = month d - 1,
                  day = days_in_month (year d) (month d - 1)\<rparr>
      else if 1 < year d then Inr \<lparr>year = year d - 1, month = 12, day = 31\<rparr>
      else Inl OverflowError)"

fun sub_days :: "date \<Rightarrow> nat \<Rightarrow> error + date" where
  "sub_days d 0 = Inr d"
| "sub_days d (Suc n) = (case prev_day d of Inl e \<Rightarrow> Inl e | Inr p \<Rightarrow> sub_days p n)"

text \<open>
  \<open>toordinal\<close> as CPython computes it: the day count from 0001-01-01 (ordinal 1).
  It is what \<open>datetime\<close> subtracts a \<open>timedelta\<close> from, and the order of dates.
\<close>

definition days_before_year :: "int \<Rightarrow> int" where
  "days_before_year y = (y - 1) * 365 + (y - 1) div 4 - (y - 1) div 100 + (y - 1) div 400"

definition days_before_month :: "int \<Rightarrow> int \<Rightarrow> int" where
  "days_before_month y m = (\<Sum>k \<leftarrow> [1..m - 1]. days_in_month y k)"

definition toordinal :: "date \<Rightarrow> int" where
  "toordinal d = days_before_year (year d) + days_before_month (year d) (month d) + day d"

section \<open>\<open>strftime\<close> and \<open>strptime\<close> with the format \<open>%Y-%m-%d\<close>\<close>

text \<open>Decimal digits and their values; \<open>digit_char\<close> is only asked for 0 to 9.\<close>

definition digits :: string where
  "digits = ''0123456789''"

definition digit_char :: "int \<Rightarrow> char" where
  "digit_char n = (if 0 \<le> n \<and> n < 10 then digits ! nat n else CHR ''?'')"

definition digit_val :: "char \<Rightarrow> int option" where
  "digit_val c = map_of (zip digits [0..9]) c"

definition zfill2 :: "int \<Rightarrow> string" where
  "zfill2 n = [digit_char (n div 10), digit_char (n mod 10)]"

definition zfill4 :: "int \<Rightarrow> string" where
  "zfill4 n = [digit_char (n div 1000), digit_char (n div 100 mod 10),
               digit_char (n div 10 mod 10), digit_char (n mod 10)]"

text \<open>
  A string is a list of 8-bit characters, among which the decimal digits are the ten
  ASCII ones; a reference date written with other decimal digits of Unicode, which
  \<open>strptime\<close> reads as well, is not a string of this theory.

  \<open>%Y\<close> is the year in decimal. \<open>datetime.strftime\<close> hands the format to the C library,
  and the one of Linux does not pad the year: four digits from year 1000 on, fewer
  before (\<open>999-06-15\<close>, \<open>1-01-07\<close>). \<open>%m\<close> and \<open>%d\<close> are two digits each.
\<close>

definition strftime :: "date \<Rightarrow> string" where
  "strftime d =
     dropWhile (\<lambda>c. c = CHR ''0'') (zfill4 (year d)) @ ''-'' @ zfill2 (month d) @ ''-'' @
     zfill2 (day d)"

text \<open>
  \<open>strptime\<close> matches the whole string against
  \<open>(\d\d\d\d)-(1[0-2]|0[1-9]|[1-9])-(3[01]|[12]\d|0[1-9]|[1-9]| [1-9])\<close>
  and hands the three numbers to the constructor; anything else is a \<open>ValueError\<close>.
  No group can hold a dash, so the string is cut at its dashes. The year is exactly four
  digits: what \<open>strftime\<close> writes for a year below 1000 is not read back.
\<close>

fun split_dash :: "string \<Rightarrow> string list" where
  "split_dash [] = [[]]"
| "split_dash (c # cs) =
     (if c = CHR ''-'' then [] # split_dash cs
      else (case split_dash cs of [] \<Rightarrow> [[c]] | p # ps \<Rightarrow> (c # p) # ps))"

definition parse_year :: "string \<Rightarrow> int option" where
  "parse_year s =
     (case map digit_val s of
        [Some a, Some b, Some c, Some e] \<Rightarrow> Some (1000 * a + 100 * b + 10 * c + e)
      | _ \<Rightarrow> None)"

definition parse_month :: "string \<Rightarrow> int option" where
  "parse_month s =
     (case map digit_val s of
        [Some a] \<Rightarrow> if 1 \<le> a then Some a else None
      | [Some a, Some b] \<Rightarrow> if 1 \<le> 10 * a + b \<and> 10 * a + b \<le> 12 then Some (10 * a + b) else None
      | _ \<Rightarrow> None)"

definition parse_day :: "string \<Rightarrow> int option" where
  "parse_day s =
     (case s of
        [c] \<Rightarrow> (case digit_val c of Some a \<Rightarrow> if 1 \<le> a then Some a else None | None \<Rightarrow> None)
      | [c, c'] \<Rightarrow>
          (if c = CHR '' '' then
             (case digit_val c' of Some a \<Rightarrow> if 1 \<le> a then Some a else None | None \<Rightarrow> None)
           else
             (case (digit_val c, digit_val c') of
                (Some a, Some b) \<Rightarrow>
                  if 1 \<le> 10 * a + b \<and> 10 * a + b \<le> 31 then Some (10 * a + b) else None
              | _ \<Rightarrow> None))
      | _ \<Rightarrow> None)"

definition strptime :: "string \<Rightarrow> error + date" where
  "strptime s =
     (case split_dash s of
        [ys, ms, ds] \<Rightarrow>
          (case (parse_year ys, parse_month ms, parse_day ds) of
             (Some y, Some m, Some d) \<Rightarrow> new_date y m d
           | _ \<Rightarrow> Inl ValueError)
      | _ \<Rightarrow> Inl ValueError)"

section \<open>The retention tiers\<close>

text \<open>A list comprehension whose element expression may raise: the first raise wins.\<close>

fun map_raise :: "('a \<Rightarrow> error + 'b) \<Rightarrow> 'a list \<Rightarrow> error + 'b list" where
  "map_raise f [] = Inr []"
| "map_raise f (x # xs) =
     (case f x of
        Inl e \<Rightarrow> Inl e
      | Inr y \<Rightarrow> (case map_raise f xs of Inl e \<Rightarrow> Inl e | Inr ys \<Rightarrow> Inr (y # ys)))"

definition generate_daily :: "string \<Rightarrow> error + string list" where
  "generate_daily s =
     (case strptime s of
        Inl e \<Rightarrow> Inl e
      | Inr input_date \<Rightarrow>
          map_raise
            (\<lambda>i. case sub_days input_date i of Inl e \<Rightarrow> Inl e | Inr t \<Rightarrow> Inr (strftime t))
            [0..<7])"

definition specific_days :: "int list" where
  "specific_days = [22, 15, 8, 1]"


text \<open>
  A measure that every step to the previous day lowers, on any triple of integers: it
  bounds how often \<open>sub_days\<close> can succeed, which is why the weekly loop ends.
\<close>

definition rank :: "date \<Rightarrow> nat" where
  "rank d = nat (year d) * 416 + nat (month d) * 32 + nat (day d)"

lemma days_in_month_le: "days_in_month y m \<le> 31"
  by (simp add: days_in_month_def)

lemma prev_day_rank: "prev_day d = Inr p \<Longrightarrow> rank p < rank d"
  using days_in_month_le [of "year d" "month d - 1"]
  by (auto simp: prev_day_def rank_def split: if_splits)

lemma sub_days_rank: "sub_days d n = Inr t \<Longrightarrow> rank t + n \<le> rank d"
proof (induction n arbitrary: d)
  case 0 then show ?case by simp
next
  case (Suc n)
  then show ?case by (fastforce split: sum.splits dest: prev_day_rank)
qed

text \<open>
  The loop of \<open>generate_weekly\<close>; its state is \<open>result_days\<close> and \<open>dc\<close>. The
  subtraction raises once \<open>dc\<close> reaches back past 0001-01-01, which ends the loop.
\<close>

function weekly_loop :: "date \<Rightarrow> string list \<Rightarrow> nat \<Rightarrow> error + string list" where
  "weekly_loop input_date result_days dc =
     (if length result_days < 4 then
        (case sub_days input_date dc of
           Inl e \<Rightarrow> Inl e
         | Inr temp_date \<Rightarrow>
             weekly_loop input_date
               (if day temp_date \<in> set specific_days
                then result_days @ [strftime temp_date] else result_days)
               (dc + 1))
      else Inr result_days)"
  by pat_completeness auto
termination
proof (relation "measure (\<lambda>(input_date, result_days, dc). Suc (rank input_date) - dc)")
  show "wf (measure (\<lambda>(input_date, result_days, dc). Suc (rank input_date) - dc))" by simp
next
  fix input_date :: date and result_days :: "string list" and dc :: nat and temp_date :: date
  assume "sub_days input_date dc = Inr temp_date"
  then have "dc \<le> rank input_date" using sub_days_rank by fastforce
  then show "((input_date,
          if day temp_date \<in> set specific_days then result_days @ [strftime temp_date] else result_days,
          dc + 1), input_date, result_days, dc) \<in> measure (\<lambda>(input_date, result_days, dc). Suc (rank input_date) - dc)"
    by simp
qed

definition generate_weekly :: "string \<Rightarrow> error + string list" where
  "generate_weekly s =
     (case strptime s of
        Inl e \<Rightarrow> Inl e
      | Inr parsed \<Rightarrow>
          (case sub_days parsed 1 of
             Inl e \<Rightarrow> Inl e
           | Inr input_date \<Rightarrow> weekly_loop input_date [] 0))"

text \<open>The loop of \<open>generate_monthly\<close>; its state is \<open>temp_date\<close> and \<open>months\<close>.\<close>

function monthly_loop :: "date \<Rightarrow> string list \<Rightarrow> error + string list" where
  "monthly_loop temp_date months =
     (if length months < 3 then
        (let previous_month = (if 1 < month temp_date then month temp_date - 1 else 12);
             previous_year = (if 1 < month temp_date then year temp_date else year temp_date - 1)
         in case replace_month_year temp_date previous_month previous_year of
              Inl e \<Rightarrow> Inl e
            | Inr t \<Rightarrow> monthly_loop t (months @ [strftime t]))
      else Inr months)"
  by pat_completeness auto
termination
  by (relation "measure (\<lambda>(temp_date, months). 3 - length months)") auto

definition generate_monthly :: "string \<Rightarrow> error + string list" where
  "generate_monthly s =
     (case strptime s of
        Inl e \<Rightarrow> Inl e
      | Inr parsed \<Rightarrow>
          (case sub_days parsed 1 of
             Inl e \<Rightarrow> Inl e
           | Inr input_date \<Rightarrow>
               (case replace_day input_date 1 of
                  Inl e \<Rightarrow> Inl e
                | Inr temp_date \<Rightarrow> monthly_loop temp_date [strftime temp_date])))"

text \<open>\<open>xs[-1]\<close>: the last item, \<open>IndexError\<close> on an empty list.\<close>

definition last_item :: "'a list \<Rightarrow> error + 'a" where
  "last_item xs = (if xs = [] then Inl IndexError else Inr (last xs))"

definition save_days :: "string \<Rightarrow> error + string list" where
  "save_days s =
     (case generate_daily s of
        Inl e \<Rightarrow> Inl e
      | Inr daily \<Rightarrow>
          (case last_item daily of
             Inl e \<Rightarrow> Inl e
           | Inr d \<Rightarrow>
               (case generate_weekly d of
                  Inl e \<Rightarrow> Inl e
                | Inr weekly \<Rightarrow>
                    (case last_item weekly of
                       Inl e \<Rightarrow> Inl e
                     | Inr w \<Rightarrow>
                         (case generate_monthly w of
                            Inl e \<Rightarrow> Inl e
                          | Inr monthly \<Rightarrow> Inr (daily @ weekly @ monthly))))))"

section \<open>Facts about the calendar\<close>

lemma div_step:
  assumes "0 < (k::int)"
  shows "y div k = (y - 1) div k + (if y mod k = 0 then 1 else 0)"
proof (cases "y mod k = 0")
  case True
  have "y = k * (y div k)" using True by (metis mult_div_mod_eq add.right_neutral)
  then have "y - 1 = k * (y div k - 1) + (k - 1)"
    by (simp add: algebra_simps)
  then have "(y - 1) div k = y div k - 1"
    using assms by (intro int_div_pos_eq [where r = "k - 1"]) auto
  then show ?thesis using True by simp
next
  case False
  have "0 \<le> y mod k" "y mod k < k" using assms by simp_all
  then have r: "0 \<le> y mod k - 1" "y mod k - 1 < k" using False by linarith+
  have "y - 1 = k * (y div k) + (y mod k - 1)"
    by (simp add: algebra_simps)
  then have "(y - 1) div k = y div k"
    using r by (intro int_div_pos_eq [where r = "y mod k - 1"]) auto
  then show ?thesis using False by simp
qed

lemma mod_0_dvd: "(k::int) dvd n \<Longrightarrow> y mod n = 0 \<Longrightarrow> y mod k = 0"
  using dvd_trans by (auto simp: mod_eq_0_iff_dvd)


lemma days_before_year_Suc:
  "days_before_year (y + 1) = days_before_year y + (if is_leap y then 366 else 365)"
proof -
  define q4 q100 q400 where "q4 = (y - 1) div 4" and "q100 = (y - 1) div 100" and "q400 = (y - 1) div 400"
  define c4 c100 c400 :: int where "c4 = (if y mod 4 = 0 then 1 else 0)"
    and "c100 = (if y mod 100 = 0 then 1 else 0)" and "c400 = (if y mod 400 = 0 then 1 else 0)"
  have a: "y mod 400 = 0 \<Longrightarrow> y mod 100 = 0" by (rule mod_0_dvd [of 100 400]) simp_all
  have b: "y mod 100 = 0 \<Longrightarrow> y mod 4 = 0" by (rule mod_0_dvd [of 4 100]) simp_all
  have e4: "y div 4 = q4 + c4"
    unfolding q4_def c4_def by (rule div_step) simp
  have e100: "y div 100 = q100 + c100"
    unfolding q100_def c100_def by (rule div_step) simp
  have e400: "y div 400 = q400 + c400"
    unfolding q400_def c400_def by (rule div_step) simp
  have l: "(if is_leap y then 366 else 365) = 365 + c4 - c100 + c400"
  proof (cases "y mod 4 = 0")
    case False
    then show ?thesis using a b by (auto simp: is_leap_def c4_def c100_def c400_def)
  next
    case True
    then show ?thesis using a by (cases "y mod 100 = 0"; cases "y mod 400 = 0") (simp_all add: is_leap_def c4_def c100_def c400_def)
  qed
  have y1: "y + 1 - 1 = y" by simp
  have "days_before_year (y + 1) = y * 365 + (q4 + c4) - (q100 + c100) + (q400 + c400)"
    unfolding days_before_year_def y1 e4 e100 e400 ..
  moreover have "days_before_year y = (y - 1) * 365 + q4 - q100 + q400"
    unfolding days_before_year_def q4_def q100_def q400_def ..
  moreover have "(y - 1) * 365 = y * 365 - 365" by (simp add: left_diff_distrib)
  ultimately show ?thesis unfolding l by linarith
qed



lemma days_in_month_ge: "28 \<le> days_in_month y m"
  by (simp add: days_in_month_def)

lemma days_before_month_Suc:
  "1 \<le> m \<Longrightarrow> days_before_month y (m + 1) = days_before_month y m + days_in_month y m"
  by (simp add: days_before_month_def upto_rec2)

lemma days_before_month_1: "days_before_month y 1 = 0"
  by (simp add: days_before_month_def)

lemma days_before_month_12: "days_before_month y 12 + 31 = (if is_leap y then 366 else 365)"
  by (simp add: days_before_month_def days_in_month_def upto_rec1)

lemma valid_prev_day:
  assumes "valid_date d" and "prev_day d = Inr p"
  shows "valid_date p \<and> toordinal p = toordinal d - 1"
proof -
  consider (a) "1 < day d" | (b) "day d = 1" "1 < month d" | (c) "day d = 1" "month d = 1" "1 < year d"
    using assms by (auto simp: prev_day_def valid_date_def split: if_splits)
  then show ?thesis
  proof cases
    case a
    then show ?thesis using assms by (auto simp: prev_day_def valid_date_def toordinal_def)
  next
    case b
    then have p: "p = \<lparr>year = year d, month = month d - 1, day = days_in_month (year d) (month d - 1)\<rparr>"
      using assms by (simp add: prev_day_def)
    have "days_before_month (year d) (month d - 1 + 1) = days_before_month (year d) (month d - 1) + days_in_month (year d) (month d - 1)"
      using b by (intro days_before_month_Suc) simp
    then show ?thesis using assms(1) b days_in_month_ge [of "year d" "month d - 1"]
      by (simp add: p valid_date_def toordinal_def)
  next
    case c
    then have p: "p = \<lparr>year = year d - 1, month = 12, day = 31\<rparr>"
      using assms by (simp add: prev_day_def)
    have "days_before_year (year d - 1 + 1) = days_before_year (year d - 1) + (if is_leap (year d - 1) then 366 else 365)"
      by (rule days_before_year_Suc)
    then show ?thesis using assms(1) c days_before_month_12 [of "year d - 1"]
      by (simp add: p valid_date_def toordinal_def days_before_month_1 days_in_month_def split: if_splits)
  qed
qed

lemma days_before_year_ge: "1 \<le> y \<Longrightarrow> 0 \<le> days_before_year y"
proof -
  assume y: "1 \<le> y"
  then have "(y - 1) div 100 \<le> (y - 1) div 4" by (intro zdiv_mono2) simp_all
  moreover have "0 \<le> (y - 1) div 400" using y by (simp add: pos_imp_zdiv_nonneg_iff)
  moreover have "0 \<le> (y - 1) * 365" using y by simp
  ultimately show ?thesis unfolding days_before_year_def by linarith
qed

lemma days_before_month_ge: "0 \<le> days_before_month y m"
  unfolding days_before_month_def
  by (rule sum_list_nonneg) (auto simp: days_in_month_def)

lemma toordinal_pos: "valid_date d \<Longrightarrow> 1 \<le> toordinal d"
  using days_before_year_ge [of "year d"] days_before_month_ge [of "year d" "month d"]
  by (simp add: toordinal_def valid_date_def)

lemma prev_day_error: "prev_day d = Inl e \<Longrightarrow> e = OverflowError"
  by (auto simp: prev_day_def split: if_splits)

lemma prev_day_fails: "valid_date d \<Longrightarrow> prev_day d = Inl e \<Longrightarrow> toordinal d = 1"
  by (auto simp: prev_day_def valid_date_def toordinal_def days_before_year_def days_before_month_1 split: if_splits)

lemma prev_day_ok: "valid_date d \<Longrightarrow> 1 < toordinal d \<Longrightarrow> \<exists>p. prev_day d = Inr p"
  using prev_day_fails by (cases "prev_day d") auto

lemma sub_days_error: "sub_days d n = Inl e \<Longrightarrow> e = OverflowError"
  by (induction n arbitrary: d) (auto split: sum.splits dest: prev_day_error)

lemma valid_sub_days:
  "valid_date d \<Longrightarrow> sub_days d n = Inr t \<Longrightarrow> valid_date t \<and> toordinal t = toordinal d - int n"
proof (induction n arbitrary: d)
  case 0 then show ?case by simp
next
  case (Suc n)
  then obtain p where p: "prev_day d = Inr p" "sub_days p n = Inr t"
    by (auto split: sum.splits)
  from valid_prev_day [OF Suc.prems(1) p(1)] Suc.IH [OF _ p(2)] show ?case by simp
qed

lemma sub_days_ok:
  "valid_date d \<Longrightarrow> int n < toordinal d \<Longrightarrow> \<exists>t. sub_days d n = Inr t"
proof (induction n arbitrary: d)
  case 0 then show ?case by simp
next
  case (Suc n)
  then obtain p where p: "prev_day d = Inr p" using prev_day_ok [of d] by auto
  from valid_prev_day [OF Suc.prems(1) p] Suc.prems(2) Suc.IH [of p] show ?case
    by (simp add: p)
qed

lemma sub_days_add:
  "sub_days d (m + n) = (case sub_days d m of Inl e \<Rightarrow> Inl e | Inr t \<Rightarrow> sub_days t n)"
  by (induction m arbitrary: d) (auto split: sum.splits)

lemma sub_days_Suc_right:
  "sub_days d (Suc n) = (case sub_days d n of Inl e \<Rightarrow> Inl e | Inr t \<Rightarrow> prev_day t)"
  using sub_days_add [of d n 1] by (auto split: sum.splits)

section \<open>\<open>strptime\<close> on what \<open>strftime\<close> writes\<close>

text \<open>
  \<open>isoformat\<close> is the date with its year padded to four digits: the form that
  \<open>strptime\<close> reads back, and what \<open>strftime\<close> writes from year 1000 on.
\<close>

definition isoformat :: "date \<Rightarrow> string" where
  "isoformat d = zfill4 (year d) @ ''-'' @ zfill2 (month d) @ ''-'' @ zfill2 (day d)"

lemma digit_cases:
  assumes "0 \<le> (n::int)" "n \<le> 9"
  shows "n \<in> {0, 1, 2, 3, 4, 5, 6, 7, 8, 9}"
proof -
  have "n \<in> {0..9}" using assms by simp
  also have "{0..9::int} = set [0..9]" by simp
  also have "[0..9::int] = [0, 1, 2, 3, 4, 5, 6, 7, 8, 9]" by (simp add: upto_rec1)
  finally show ?thesis by simp
qed

lemma digit_table: "zip digits [0..9] =
  [(CHR ''0'', 0), (CHR ''1'', 1), (CHR ''2'', 2), (CHR ''3'', 3), (CHR ''4'', 4),
   (CHR ''5'', 5), (CHR ''6'', 6), (CHR ''7'', 7), (CHR ''8'', 8), (CHR ''9'', 9)]"
  by (simp add: digits_def upto_rec1)

lemma digit_val_digit_char: "0 \<le> n \<Longrightarrow> n \<le> 9 \<Longrightarrow> digit_val (digit_char n) = Some n"
  using digit_cases [of n] by (auto simp: digit_val_def digit_char_def digit_table) (simp_all add: digits_def)

lemma digit_char_not_dash: "digit_char n \<noteq> CHR ''-''"
proof (cases "0 \<le> n \<and> n \<le> 9")
  case True
  then show ?thesis using digit_cases [of n] by (auto simp: digit_char_def digits_def)
next
  case False
  then have "\<not> (0 \<le> n \<and> n < 10)" by linarith
  then have "digit_char n = CHR ''?''" unfolding digit_char_def by (rule if_not_P)
  then show ?thesis by simp
qed

lemma digit_char_not_space: "digit_char n \<noteq> CHR '' ''"
proof (cases "0 \<le> n \<and> n \<le> 9")
  case True
  then show ?thesis using digit_cases [of n] by (auto simp: digit_char_def digits_def)
next
  case False
  then have "\<not> (0 \<le> n \<and> n < 10)" by linarith
  then have "digit_char n = CHR ''?''" unfolding digit_char_def by (rule if_not_P)
  then show ?thesis by simp
qed

lemma split_dash_isoformat:
  "split_dash (isoformat d) = [zfill4 (year d), zfill2 (month d), zfill2 (day d)]"
  by (simp add: isoformat_def zfill4_def zfill2_def digit_char_not_dash)

lemma mod_10_digit: "0 \<le> (a::int) mod 10" "a mod 10 \<le> 9"
  using pos_mod_bound [of 10 a] pos_mod_sign [of 10 a] by linarith+

lemma div_digit:
  assumes "0 \<le> (a::int)" "a < 10 * k" "0 < k"
  shows "0 \<le> a div k" "a div k \<le> 9"
proof -
  show "0 \<le> a div k" using assms by (simp add: pos_imp_zdiv_nonneg_iff)
  have "10 * k - 1 = k * 9 + (k - 1)" by simp
  then have "(10 * k - 1) div k = 9"
    using assms(3) by (intro int_div_pos_eq [where r = "k - 1"]) simp_all
  moreover have "a div k \<le> (10 * k - 1) div k"
    using assms by (intro zdiv_mono1) simp_all
  ultimately show "a div k \<le> 9" by simp
qed

lemma two_digits:
  assumes "0 \<le> (n::int)" "n \<le> 99"
  shows "0 \<le> n div 10" "n div 10 \<le> 9" "0 \<le> n mod 10" "n mod 10 \<le> 9" "10 * (n div 10) + n mod 10 = n"
proof -
  show "0 \<le> n div 10" "n div 10 \<le> 9" using div_digit [of n 10] assms by linarith+
  show "0 \<le> n mod 10" "n mod 10 \<le> 9" by (rule mod_10_digit)+
  show "10 * (n div 10) + n mod 10 = n" by (rule mult_div_mod_eq)
qed

lemma four_digits:
  assumes "0 \<le> (y::int)" "y \<le> 9999"
  shows "1000 * (y div 1000) + 100 * (y div 100 mod 10) + 10 * (y div 10 mod 10) + y mod 10 = y"
proof -
  have a: "y = 10 * (y div 10) + y mod 10" by (rule mult_div_mod_eq [symmetric])
  have h: "y div 100 = y div 10 div 10" "y div 1000 = y div 100 div 10"
    using zdiv_zmult2_eq [of 10 y 10] zdiv_zmult2_eq [of 10 y 100] by simp_all
  have b: "y div 10 = 10 * (y div 100) + y div 10 mod 10"
    unfolding h by (rule mult_div_mod_eq [symmetric])
  have c: "y div 100 = 10 * (y div 1000) + y div 100 mod 10"
    unfolding h(2) by (rule mult_div_mod_eq [symmetric])
  show ?thesis using a b c by linarith
qed

lemma parse_year_zfill4:
  assumes "0 \<le> y" "y \<le> 9999"
  shows "parse_year (zfill4 y) = Some y"
proof -
  have "digit_val (digit_char (y div 1000)) = Some (y div 1000)"
    using div_digit [of y 1000] assms by (intro digit_val_digit_char) linarith+
  moreover have "digit_val (digit_char (y div 100 mod 10)) = Some (y div 100 mod 10)"
    "digit_val (digit_char (y div 10 mod 10)) = Some (y div 10 mod 10)"
    "digit_val (digit_char (y mod 10)) = Some (y mod 10)"
    by (intro digit_val_digit_char mod_10_digit)+
  ultimately have "parse_year (zfill4 y) =
      Some (1000 * (y div 1000) + 100 * (y div 100 mod 10) + 10 * (y div 10 mod 10) + y mod 10)"
    by (simp only: parse_year_def zfill4_def list.map list.case option.case)
  then show ?thesis by (simp only: four_digits [OF assms])
qed

lemma parse_month_zfill2:
  assumes "1 \<le> m" "m \<le> 12"
  shows "parse_month (zfill2 m) = Some m"
proof -
  have t: "0 \<le> m div 10" "m div 10 \<le> 9" "0 \<le> m mod 10" "m mod 10 \<le> 9" "10 * (m div 10) + m mod 10 = m"
    using two_digits [of m] assms by linarith+
  have "digit_val (digit_char (m div 10)) = Some (m div 10)"
    by (rule digit_val_digit_char [OF t(1) t(2)])
  moreover have "digit_val (digit_char (m mod 10)) = Some (m mod 10)"
    by (rule digit_val_digit_char [OF t(3) t(4)])
  ultimately have "parse_month (zfill2 m) =
    (if 1 \<le> 10 * (m div 10) + m mod 10 \<and> 10 * (m div 10) + m mod 10 \<le> 12
     then Some (10 * (m div 10) + m mod 10) else None)"
    by (simp only: parse_month_def zfill2_def list.map list.case option.case)
  then show ?thesis using assms by (simp only: t(5) if_True simp_thms)
qed

lemma parse_day_zfill2:
  assumes "1 \<le> d" "d \<le> 31"
  shows "parse_day (zfill2 d) = Some d"
proof -
  have t: "0 \<le> d div 10" "d div 10 \<le> 9" "0 \<le> d mod 10" "d mod 10 \<le> 9" "10 * (d div 10) + d mod 10 = d"
    using two_digits [of d] assms by linarith+
  have "digit_val (digit_char (d div 10)) = Some (d div 10)"
    by (rule digit_val_digit_char [OF t(1) t(2)])
  moreover have "digit_val (digit_char (d mod 10)) = Some (d mod 10)"
    by (rule digit_val_digit_char [OF t(3) t(4)])
  ultimately have "parse_day (zfill2 d) =
    (if 1 \<le> 10 * (d div 10) + d mod 10 \<and> 10 * (d div 10) + d mod 10 \<le> 31
     then Some (10 * (d div 10) + d mod 10) else None)"
    by (simp only: parse_day_def zfill2_def list.case option.case prod.case digit_char_not_space if_False)
  then show ?thesis using assms by (simp only: t(5) if_True simp_thms)
qed

lemma strptime_isoformat: "valid_date d \<Longrightarrow> strptime (isoformat d) = Inr d"
proof -
  assume v: "valid_date d"
  then have "parse_year (zfill4 (year d)) = Some (year d)"
    "parse_month (zfill2 (month d)) = Some (month d)"
    "parse_day (zfill2 (day d)) = Some (day d)"
    using days_in_month_le [of "year d" "month d"]
    by (simp_all add: valid_date_def parse_year_zfill4 parse_month_zfill2 parse_day_zfill2)
  then show ?thesis using v
    by (simp add: strptime_def split_dash_isoformat new_date_def valid_date_def)
qed

lemma new_date_valid: "new_date y m d = Inr x \<Longrightarrow> valid_date x"
  by (auto simp: new_date_def split: if_splits)

lemma strptime_valid: "strptime s = Inr d \<Longrightarrow> valid_date d"
proof -
  assume a: "strptime s = Inr d"
  then obtain y m dd where "new_date y m dd = Inr d"
    unfolding strptime_def
    by (cases "split_dash s" rule: list.exhaust; simp split: list.splits option.splits)
  then show ?thesis by (rule new_date_valid)
qed

lemma digit_char_nonzero:
  assumes "1 \<le> n" "n \<le> 9"
  shows "digit_char n \<noteq> CHR ''0''"
proof -
  have "n \<in> {0, 1, 2, 3, 4, 5, 6, 7, 8, 9}" using assms by (intro digit_cases) simp_all
  then show ?thesis using assms(1) by (auto simp: digit_char_def digits_def)
qed

lemma year_unpadded:
  assumes "1000 \<le> y" "y \<le> 9999"
  shows "dropWhile (\<lambda>c. c = CHR ''0'') (zfill4 y) = zfill4 y"
proof -
  have "1000 div 1000 \<le> y div 1000" using assms(1) by (intro zdiv_mono1) simp_all
  then have "1 \<le> y div 1000" by simp
  moreover have "y div 1000 \<le> 9" using div_digit(2) [of y 1000] assms by simp
  ultimately have "digit_char (y div 1000) \<noteq> CHR ''0''" by (rule digit_char_nonzero)
  then show ?thesis by (simp add: zfill4_def)
qed

lemma year_stripped:
  assumes "0 \<le> y" "y < 1000"
  shows "length (dropWhile (\<lambda>c. c = CHR ''0'') (zfill4 y)) < 4"
proof -
  let ?P = "\<lambda>c. c = CHR ''0''"
  have "y div 1000 = 0" using assms by simp
  then have z: "digit_char (y div 1000) = CHR ''0''" by (simp add: digit_char_def digits_def)
  have "dropWhile ?P (zfill4 y) = dropWhile ?P (tl (zfill4 y))"
    using z by (simp add: zfill4_def)
  moreover have "length (dropWhile ?P (tl (zfill4 y))) \<le> length (tl (zfill4 y))"
    by (rule length_dropWhile_le)
  moreover have "length (tl (zfill4 y)) = 3" by (simp add: zfill4_def)
  ultimately show ?thesis by simp
qed

lemma strftime_isoformat: "valid_date d \<Longrightarrow> 1000 \<le> year d \<Longrightarrow> strftime d = isoformat d"
  by (simp add: strftime_def isoformat_def year_unpadded valid_date_def)

lemma takeWhile_replicate:
  "takeWhile (\<lambda>c. c = x) xs = replicate (length (takeWhile (\<lambda>c. c = x) xs)) x"
  by (induction xs) simp_all

text \<open>Padding with zeros to ten characters gives the year its four digits back.\<close>

lemma isoformat_strftime:
  "isoformat d = replicate (10 - length (strftime d)) (CHR ''0'') @ strftime d"
proof -
  let ?P = "\<lambda>c. c = CHR ''0''"
  let ?z = "zfill4 (year d)"
  have "length (takeWhile ?P ?z @ dropWhile ?P ?z) = length ?z"
    by (simp only: takeWhile_dropWhile_id)
  moreover have "length ?z = 4" by (simp add: zfill4_def)
  ultimately have "length (takeWhile ?P ?z) + length (dropWhile ?P ?z) = 4"
    by (simp only: length_append)
  moreover have "length (strftime d) = length (dropWhile ?P ?z) + 6"
    by (simp add: strftime_def zfill2_def)
  ultimately have k: "length (takeWhile ?P ?z) = 10 - length (strftime d)" by simp
  have "takeWhile ?P ?z = replicate (length (takeWhile ?P ?z)) (CHR ''0'')"
    by (rule takeWhile_replicate)
  also have "\<dots> = replicate (10 - length (strftime d)) (CHR ''0'')" by (simp only: k)
  finally have "replicate (10 - length (strftime d)) (CHR ''0'') @ strftime d =
      (takeWhile ?P ?z @ dropWhile ?P ?z) @ ''-'' @ zfill2 (month d) @ ''-'' @ zfill2 (day d)"
    by (simp add: strftime_def)
  then show ?thesis by (simp add: isoformat_def)
qed

lemma strftime_inj:
  assumes "valid_date d" "valid_date d'" "strftime d = strftime d'"
  shows "d = d'"
proof -
  have "isoformat d = isoformat d'" by (simp only: isoformat_strftime assms(3))
  then have "strptime (isoformat d) = strptime (isoformat d')" by (rule arg_cong)
  then have "(Inr d :: error + date) = Inr d'"
    by (simp only: strptime_isoformat [OF assms(1)] strptime_isoformat [OF assms(2)])
  then show ?thesis by (simp only: sum.inject)
qed

lemma split_dash_append:
  "CHR ''-'' \<notin> set ys \<Longrightarrow> split_dash (ys @ CHR ''-'' # rest) = ys # split_dash rest"
  by (induction ys) auto

lemma split_dash_strftime:
  "split_dash (strftime d) =
     [dropWhile (\<lambda>c. c = CHR ''0'') (zfill4 (year d)), zfill2 (month d), zfill2 (day d)]"
proof -
  have "CHR ''-'' \<notin> set (zfill4 (year d))"
    by (simp add: zfill4_def digit_char_not_dash [symmetric])
  then have "CHR ''-'' \<notin> set (dropWhile (\<lambda>c. c = CHR ''0'') (zfill4 (year d)))"
    using set_dropWhileD by fastforce
  then show ?thesis
    by (simp add: strftime_def split_dash_append zfill2_def digit_char_not_dash)
qed

lemma parse_year_length: "parse_year s = Some y \<Longrightarrow> length s = 4"
proof -
  assume "parse_year s = Some y"
  then obtain a b c e where "map digit_val s = [a, b, c, e]"
    unfolding parse_year_def by (auto split: list.splits option.splits)
  then have "length (map digit_val s) = 4" by simp
  then show ?thesis by simp
qed

text \<open>
  A date of year 1000 or later is read back from its format; the format of an earlier
  date is refused, for its year has fewer than four digits.
\<close>

lemma strptime_strftime:
  assumes "valid_date d"
  shows "strptime (strftime d) = (if 1000 \<le> year d then Inr d else Inl ValueError)"
proof (cases "1000 \<le> year d")
  case True
  then show ?thesis
    using strftime_isoformat [OF assms] strptime_isoformat [OF assms] by simp
next
  case False
  then have "length (dropWhile (\<lambda>c. c = CHR ''0'') (zfill4 (year d))) < 4"
    using assms by (intro year_stripped) (simp_all add: valid_date_def)
  then have "parse_year (dropWhile (\<lambda>c. c = CHR ''0'') (zfill4 (year d))) = None"
    by (cases "parse_year (dropWhile (\<lambda>c. c = CHR ''0'') (zfill4 (year d)))")
       (auto dest: parse_year_length)
  then show ?thesis using False by (simp add: strptime_def split_dash_strftime)
qed

section \<open>The weekly walk, in the words of the specification\<close>

text \<open>
  The specification describes the weekly tier as a walk: start at an anchor date, go back
  day by day, collect a date whenever its day of the month is one of 22, 15, 8 and 1, and
  stop once enough dates are collected. \<open>walk_back k d\<close> is that walk from \<open>d\<close> for \<open>k\<close>
  dates; it ends early only at 0001-01-01, where no earlier day exists. It is written from
  the specification, to be compared with the loop of \<open>generate_weekly\<close>.
\<close>

function walk_back :: "nat \<Rightarrow> date \<Rightarrow> date list" where
  "walk_back 0 d = []"
| "walk_back (Suc k) d =
     (if day d \<in> {22, 15, 8, 1}
      then d # (case prev_day d of Inl e \<Rightarrow> [] | Inr p \<Rightarrow> walk_back k p)
      else (case prev_day d of Inl e \<Rightarrow> [] | Inr p \<Rightarrow> walk_back (Suc k) p))"
  by pat_completeness auto
termination
  by (relation "measure (\<lambda>(k, d). k + rank d)") (auto dest: prev_day_rank)

text \<open>
  The loop recomputes \<open>input_date - dc\<close> from the anchor in every round; the walk steps
  from one day to the one before. They collect the same dates, and the loop raises
  exactly when the walk runs out of calendar before it has its four dates.
\<close>

declare weekly_loop.simps [simp del]

lemma weekly_loop_walk:
  "length res \<le> 4 \<Longrightarrow>
   weekly_loop a res dc =
     (case sub_days a dc of
        Inl e \<Rightarrow> if length res < 4 then Inl OverflowError else Inr res
      | Inr b \<Rightarrow>
          (let ws = walk_back (4 - length res) b
           in if length res + length ws = 4 then Inr (res @ map strftime ws)
              else Inl OverflowError))"
proof (induction a res dc rule: weekly_loop.induct)
  case (1 a res dc)
  show ?case
  proof (cases "length res < 4")
    case False
    with "1.prems" have "length res = 4" by simp
    then show ?thesis by (subst weekly_loop.simps) (simp split: sum.splits)
  next
    case True
    show ?thesis
    proof (cases "sub_days a dc")
      case (Inl e)
      then show ?thesis using True sub_days_error [OF Inl]
        by (subst weekly_loop.simps) simp
    next
      case (Inr b)
      define hit where "hit = (day b \<in> set specific_days)"
      define res' where "res' = (if hit then res @ [strftime b] else res)"
      have len: "length res' \<le> 4" using True by (simp add: res'_def)
      have step: "weekly_loop a res dc = weekly_loop a res' (dc + 1)"
        by (subst weekly_loop.simps) (simp add: True Inr res'_def hit_def)
      have sd: "sub_days a (dc + 1) = prev_day b"
        using sub_days_Suc_right [of a dc] Inr by simp
      have IH: "weekly_loop a res' (dc + 1) =
        (case prev_day b of
           Inl e \<Rightarrow> if length res' < 4 then Inl OverflowError else Inr res'
         | Inr p \<Rightarrow>
             (let ws = walk_back (4 - length res') p
              in if length res' + length ws = 4 then Inr (res' @ map strftime ws)
                 else Inl OverflowError))"
        using "1.IH" [OF True Inr] len unfolding res'_def hit_def sd by simp
      note E = trans [OF step IH]
      obtain k where k: "4 - length res = Suc k"
        using True by (cases "4 - length res") simp_all
      then have k3: "3 - length res = k" "length res + Suc k = 4" by simp_all
      have hit': "hit = (day b \<in> {22, 15, 8, 1})"
        by (simp add: hit_def specific_days_def)
      show ?thesis
      proof (cases hit)
        case h: True
        then have r: "res' = res @ [strftime b]" "4 - length res' = k" "length res' = Suc (length res)"
          using k3 by (simp_all add: res'_def)
        have w: "walk_back (Suc k) b = b # (case prev_day b of Inl e \<Rightarrow> [] | Inr p \<Rightarrow> walk_back k p)"
          using h hit' by simp
        show ?thesis unfolding E Inr sum.case k w r using k3(2)
          by (cases "prev_day b") (auto simp: Let_def k3(1))
      next
        case h: False
        then have r: "res' = res" by (simp add: res'_def)
        have w: "walk_back (Suc k) b = (case prev_day b of Inl e \<Rightarrow> [] | Inr p \<Rightarrow> walk_back (Suc k) p)"
          using h hit' by simp
        show ?thesis unfolding E Inr sum.case k w r using k3(2) True
          by (cases "prev_day b") (auto simp: Let_def k)
      qed
    qed
  qed
qed

declare walk_back.simps [simp del]

lemma walk_back_props:
  "valid_date a \<Longrightarrow>
   length (walk_back k a) \<le> k \<and>
   (\<forall>w \<in> set (walk_back k a).
      valid_date w \<and> day w \<in> {22, 15, 8, 1} \<and> toordinal w \<le> toordinal a) \<and>
   sorted_wrt (\<lambda>x y. toordinal y < toordinal x) (walk_back k a)"
proof (induction k a rule: walk_back.induct)
  case (1 d)
  show ?case by (simp add: walk_back.simps)
next
  case (2 k d)
  show ?case
  proof (cases "prev_day d")
    case (Inl e)
    then show ?thesis using "2.prems" by (simp add: walk_back.simps(2) [of k d])
  next
    case (Inr p)
    note vp = valid_prev_day [OF "2.prems" Inr]
    show ?thesis
    proof (cases "day d \<in> {22, 15, 8, 1}")
      case True
      have e: "walk_back (Suc k) d = d # walk_back k p"
        using True Inr by (simp only: walk_back.simps if_True sum.case)
      have IH: "length (walk_back k p) \<le> k"
        "\<forall>w \<in> set (walk_back k p). valid_date w \<and> day w \<in> {22, 15, 8, 1} \<and> toordinal w \<le> toordinal p"
        "sorted_wrt (\<lambda>x y. toordinal y < toordinal x) (walk_back k p)"
        using "2.IH"(1) [OF True Inr] vp by blast+
      have "\<forall>w \<in> set (walk_back k p). toordinal w < toordinal d"
        "\<forall>w \<in> set (walk_back k p). toordinal w \<le> toordinal d"
        using IH(2) vp by fastforce+
      then show ?thesis unfolding e using IH True "2.prems" by simp
    next
      case False
      have e: "walk_back (Suc k) d = walk_back (Suc k) p"
        using False Inr by (simp only: walk_back.simps if_False sum.case)
      have IH: "length (walk_back (Suc k) p) \<le> Suc k"
        "\<forall>w \<in> set (walk_back (Suc k) p). valid_date w \<and> day w \<in> {22, 15, 8, 1} \<and> toordinal w \<le> toordinal p"
        "sorted_wrt (\<lambda>x y. toordinal y < toordinal x) (walk_back (Suc k) p)"
        using "2.IH"(2) [OF False Inr] vp by blast+
      have "\<forall>w \<in> set (walk_back (Suc k) p). toordinal w \<le> toordinal d"
        using IH(2) vp by fastforce
      then show ?thesis unfolding e using IH by simp
    qed
  qed
qed

text \<open>
  How many collected days lie at or before a date, counted from 0001-01-01: four in
  every earlier month, and those of its own month up to its day. A device of the proofs:
  the walk finds as many dates as there are, up to the number asked for.
\<close>

definition anchor_count :: "date \<Rightarrow> int" where
  "anchor_count d =
     4 * ((year d - 1) * 12 + (month d - 1)) +
     (if 22 \<le> day d then 4 else if 15 \<le> day d then 3 else if 8 \<le> day d then 2 else 1)"

lemma anchor_count_pos: "valid_date d \<Longrightarrow> 1 \<le> anchor_count d"
  by (auto simp: anchor_count_def valid_date_def)

lemma prev_day_hit:
  assumes "valid_date d" "day d \<in> {22, 15, 8, 1}"
  shows "prev_day d = Inr p \<Longrightarrow> anchor_count p = anchor_count d - 1"
    and "prev_day d = Inl e \<Longrightarrow> anchor_count d = 1"
proof -
  show "anchor_count p = anchor_count d - 1" if "prev_day d = Inr p"
    using that assms days_in_month_ge [of "year d" "month d - 1"]
    by (auto simp: prev_day_def anchor_count_def valid_date_def split: if_splits)
  show "anchor_count d = 1" if "prev_day d = Inl e"
    using that assms
    by (auto simp: prev_day_def anchor_count_def valid_date_def split: if_splits)
qed

lemma prev_day_miss:
  assumes "valid_date d" "day d \<notin> {22, 15, 8, 1}"
  shows "\<exists>p. prev_day d = Inr p \<and> anchor_count p = anchor_count d"
proof -
  have "1 < day d" using assms by (auto simp: valid_date_def)
  then have "prev_day d = Inr (d\<lparr>day := day d - 1\<rparr>)" by (simp add: prev_day_def)
  moreover have "anchor_count (d\<lparr>day := day d - 1\<rparr>) = anchor_count d"
    using assms(2) by (auto simp: anchor_count_def)
  ultimately show ?thesis by blast
qed

lemma walk_back_length:
  "valid_date a \<Longrightarrow>
   length (walk_back k a) = min k (nat (anchor_count a)) \<and>
   (walk_back k a \<noteq> [] \<longrightarrow>
      anchor_count (last (walk_back k a)) = anchor_count a - int (length (walk_back k a)) + 1)"
proof (induction k a rule: walk_back.induct)
  case (1 d)
  show ?case by (simp add: walk_back.simps)
next
  case (2 k d)
  note pos = anchor_count_pos [OF "2.prems"]
  show ?case
  proof (cases "day d \<in> {22, 15, 8, 1}")
    case True
    show ?thesis
    proof (cases "prev_day d")
      case (Inl e)
      have "anchor_count d = 1" using Inl by (rule prev_day_hit(2) [OF "2.prems" True])
      moreover have "walk_back (Suc k) d = [d]"
        using True Inl by (simp only: walk_back.simps if_True sum.case)
      ultimately show ?thesis by simp
    next
      case (Inr p)
      note vp = valid_prev_day [OF "2.prems" Inr]
      have c: "anchor_count p = anchor_count d - 1"
        using Inr by (rule prev_day_hit(1) [OF "2.prems" True])
      have e: "walk_back (Suc k) d = d # walk_back k p"
        using True Inr by (simp only: walk_back.simps if_True sum.case)
      from "2.IH"(1) [OF True Inr] vp
      have IH: "length (walk_back k p) = min k (nat (anchor_count p))"
        "walk_back k p \<noteq> [] \<longrightarrow>
           anchor_count (last (walk_back k p)) = anchor_count p - int (length (walk_back k p)) + 1"
        by blast+
      have "length (walk_back (Suc k) d) = min (Suc k) (nat (anchor_count d))"
        unfolding e using IH(1) c pos by simp
      moreover have "anchor_count (last (walk_back (Suc k) d)) =
          anchor_count d - int (length (walk_back (Suc k) d)) + 1"
        unfolding e using IH(2) c by (cases "walk_back k p = []") simp_all
      ultimately show ?thesis by simp
    qed
  next
    case False
    obtain p where p: "prev_day d = Inr p" "anchor_count p = anchor_count d"
      using prev_day_miss [OF "2.prems" False] by blast
    note vp = valid_prev_day [OF "2.prems" p(1)]
    have e: "walk_back (Suc k) d = walk_back (Suc k) p"
      using False p(1) by (simp only: walk_back.simps if_False sum.case)
    from "2.IH"(2) [OF False p(1)] vp show ?thesis unfolding e p(2) by blast
  qed
qed

section \<open>The daily tier\<close>

lemma map_raise_Inr:
  "map_raise (\<lambda>i. case g i of Inl e \<Rightarrow> Inl e | Inr t \<Rightarrow> Inr (h t)) xs = Inr ys \<longleftrightarrow>
   (\<exists>ds. map g xs = map Inr ds \<and> ys = map h ds)"
proof (induction xs arbitrary: ys)
  case Nil
  show ?case by auto
next
  case (Cons x xs)
  show ?case
  proof (cases "g x")
    case (Inl e)
    then show ?thesis by auto
  next
    case gx: (Inr t)
    show ?thesis
    proof (cases "map_raise (\<lambda>i. case g i of Inl e \<Rightarrow> Inl e | Inr t \<Rightarrow> Inr (h t)) xs")
      case (Inl e)
      then have "\<not> (\<exists>ds. map g xs = map Inr ds \<and> zs = map h ds)" for zs
        using Cons.IH [of zs] by simp
      then show ?thesis using gx Inl by (auto simp: map_eq_Cons_conv)
    next
      case (Inr zs)
      then obtain ds where ds: "map g xs = map Inr ds" "zs = map h ds"
        using Cons.IH [of zs] by auto
      have inj: "map Inr ds = map Inr ds' \<Longrightarrow> ds = ds'" for ds' :: "'c list"
        by (simp add: inj_map_eq_map)
      show ?thesis
      proof
        assume "map_raise (\<lambda>i. case g i of Inl e \<Rightarrow> Inl e | Inr t \<Rightarrow> Inr (h t)) (x # xs) = Inr ys"
        then have "ys = h t # zs" using gx Inr by simp
        then have "map g (x # xs) = map Inr (t # ds) \<and> ys = map h (t # ds)"
          using gx ds by simp
        then show "\<exists>ds. map g (x # xs) = map Inr ds \<and> ys = map h ds" by blast
      next
        assume "\<exists>ds. map g (x # xs) = map Inr ds \<and> ys = map h ds"
        then obtain es where es: "map g (x # xs) = map Inr es" "ys = map h es" by blast
        then obtain e es' where e: "es = e # es'" by (cases es) auto
        have "e = t" "map Inr es' = map Inr ds" using es(1) gx ds(1) unfolding e by simp_all
        then have "es = t # ds" using inj [of es'] e by simp
        then show "map_raise (\<lambda>i. case g i of Inl e \<Rightarrow> Inl e | Inr t \<Rightarrow> Inr (h t)) (x # xs) = Inr ys"
          using gx Inr ds es(2) by simp
      qed
    qed
  qed
qed

lemma map_Inr_nth:
  "map g xs = map Inr ds \<longleftrightarrow> length ds = length xs \<and> (\<forall>i < length xs. g (xs ! i) = Inr (ds ! i))"
  by (auto simp: list_eq_iff_nth_eq)

lemma generate_daily_Inr:
  "generate_daily s = Inr daily \<longleftrightarrow>
   (\<exists>D ds. strptime s = Inr D \<and> length ds = 7 \<and> (\<forall>i < 7. sub_days D i = Inr (ds ! i)) \<and>
           daily = map strftime ds)"
  unfolding generate_daily_def
  by (cases "strptime s") (auto simp: map_raise_Inr map_Inr_nth)

lemma generate_daily_dates:
  assumes "strptime s = Inr D" "6 < toordinal D"
  shows "\<exists>ds. generate_daily s = Inr (map strftime ds) \<and> length ds = 7 \<and>
    (\<forall>i < 7. sub_days D i = Inr (ds ! i) \<and> valid_date (ds ! i) \<and>
       toordinal (ds ! i) = toordinal D - int i)"
proof -
  have vD: "valid_date D" using assms(1) by (rule strptime_valid)
  have "\<exists>t. sub_days D i = Inr t" if "i < 7" for i
    using that vD assms(2) by (intro sub_days_ok) simp_all
  then obtain f where f: "\<And>i. i < 7 \<Longrightarrow> sub_days D i = Inr (f i)"
    by metis
  define ds where "ds = map f [0..<7]"
  have len: "length ds = 7" by (simp add: ds_def)
  have nth: "sub_days D i = Inr (ds ! i)" if "i < 7" for i
    using that f by (simp add: ds_def del: upt_Suc)
  have "generate_daily s = Inr (map strftime ds)"
    unfolding generate_daily_Inr using assms(1) len nth by blast
  moreover have "valid_date (ds ! i) \<and> toordinal (ds ! i) = toordinal D - int i" if "i < 7" for i
    using valid_sub_days [OF vD nth [OF that]] .
  ultimately show ?thesis using len nth by blast
qed

lemma ordinal_in_january: "toordinal \<lparr>year = 1, month = 1, day = n\<rparr> = n"
  by (simp add: toordinal_def days_before_year_def days_before_month_1)

text \<open>
  C8. The daily tier of a reference date \<open>D\<close>, read by \<open>strptime\<close> from the string \<open>s\<close>,
  is \<open>D, D - 1, \<dots>, D - 6\<close>: seven strings, the \<open>i\<close>-th the format of the date \<open>i\<close> days
  before \<open>D\<close>, whose ordinal is that of \<open>D\<close> less \<open>i\<close>; the first is \<open>D\<close> itself. This
  holds for every reference date from 0001-01-07 on. It does not hold for every valid
  reference date: for an earlier one \<open>D - 6\<close> does not exist, the subtraction raises
  \<open>OverflowError\<close> and there is no daily tier, as at 0001-01-06.
\<close>

theorem daily_tier_is_last_seven_days:
  assumes "strptime s = Inr D"
    and "toordinal \<lparr>year = 1, month = 1, day = 7\<rparr> \<le> toordinal D"
  shows "\<exists>ds. generate_daily s = Inr (map strftime ds) \<and> length ds = 7 \<and>
    ds ! 0 = D \<and>
    (\<forall>i < 7. sub_days D i = Inr (ds ! i) \<and> valid_date (ds ! i) \<and>
       toordinal (ds ! i) = toordinal D - int i)"
proof -
  have "6 < toordinal D" using assms(2) by (simp add: ordinal_in_january)
  then obtain ds where ds: "generate_daily s = Inr (map strftime ds)" "length ds = 7"
    "\<forall>i < 7. sub_days D i = Inr (ds ! i) \<and> valid_date (ds ! i) \<and>
       toordinal (ds ! i) = toordinal D - int i"
    using generate_daily_dates [OF assms(1)] by blast
  have "(0::nat) < 7" by simp
  with ds(3) have "sub_days D 0 = Inr (ds ! 0)" by blast
  then have "ds ! 0 = D" by simp
  with ds show ?thesis by blast
qed

theorem daily_tier_is_last_seven_days_witness:
  "strptime ''2024-03-15'' = Inr \<lparr>year = 2024, month = 3, day = 15\<rparr> \<and>
   toordinal \<lparr>year = 1, month = 1, day = 7\<rparr> \<le> toordinal \<lparr>year = 2024, month = 3, day = 15\<rparr> \<and>
   (\<exists>ds. generate_daily ''2024-03-15'' = Inr (map strftime ds) \<and> length ds = 7 \<and>
      ds ! 0 = \<lparr>year = 2024, month = 3, day = 15\<rparr> \<and> toordinal (ds ! 6) = 738954) \<and>
   generate_daily ''2024-03-15'' =
     Inr [''2024-03-15'', ''2024-03-14'', ''2024-03-13'', ''2024-03-12'', ''2024-03-11'',
          ''2024-03-10'', ''2024-03-09'']"
proof -
  let ?D = "\<lparr>year = 2024, month = 3, day = 15\<rparr>"
  have p: "strptime ''2024-03-15'' = Inr ?D" by code_simp
  have o: "toordinal ?D = 738960" by code_simp
  then have r: "toordinal \<lparr>year = 1, month = 1, day = 7\<rparr> \<le> toordinal ?D"
    by (simp add: ordinal_in_january)
  have e: "generate_daily ''2024-03-15'' =
     Inr [''2024-03-15'', ''2024-03-14'', ''2024-03-13'', ''2024-03-12'', ''2024-03-11'',
          ''2024-03-10'', ''2024-03-09'']" by code_simp
  obtain ds where ds: "generate_daily ''2024-03-15'' = Inr (map strftime ds)" "length ds = 7"
    "ds ! 0 = ?D" "\<forall>i < 7. sub_days ?D i = Inr (ds ! i) \<and> valid_date (ds ! i) \<and>
       toordinal (ds ! i) = toordinal ?D - int i"
    using daily_tier_is_last_seven_days [OF p r] by blast
  have "(6::nat) < 7" by simp
  with ds(4) have "toordinal (ds ! 6) = toordinal ?D - int 6" by blast
  then have "toordinal (ds ! 6) = 738954" using o by simp
  then show ?thesis using p r e ds(1,2,3) by blast
qed

theorem daily_tier_raises_in_first_week:
  "strptime ''0001-01-06'' = Inr \<lparr>year = 1, month = 1, day = 6\<rparr> \<and>
   valid_date \<lparr>year = 1, month = 1, day = 6\<rparr> \<and>
   generate_daily ''0001-01-06'' = Inl OverflowError"
  by code_simp

text \<open>
  Before year 1000 the dates of the tier are written without leading zeros, and at
  0001-01-07 the tier reaches the first day of the calendar.
\<close>

lemma daily_tier_of_early_years:
  "generate_daily ''0999-06-15'' =
     Inr [''999-06-15'', ''999-06-14'', ''999-06-13'', ''999-06-12'', ''999-06-11'',
          ''999-06-10'', ''999-06-09'']"
  "generate_daily ''0001-01-07'' =
     Inr [''1-01-07'', ''1-01-06'', ''1-01-05'', ''1-01-04'', ''1-01-03'', ''1-01-02'',
          ''1-01-01'']"
  by code_simp+

section \<open>The weekly tier\<close>

lemma days_before_year_lower: "1 \<le> y \<Longrightarrow> (y - 1) * 365 \<le> days_before_year y"
proof -
  assume y: "1 \<le> y"
  then have "(y - 1) div 100 \<le> (y - 1) div 4" by (intro zdiv_mono2) simp_all
  moreover have "0 \<le> (y - 1) div 400" using y by (simp add: pos_imp_zdiv_nonneg_iff)
  ultimately show ?thesis unfolding days_before_year_def by linarith
qed

lemma toordinal_later_years: "valid_date d \<Longrightarrow> 1 < year d \<Longrightarrow> 366 \<le> toordinal d"
proof -
  assume v: "valid_date d" and y: "1 < year d"
  have "365 \<le> (year d - 1) * 365" using y by simp
  then have "365 \<le> days_before_year (year d)"
    using days_before_year_lower [of "year d"] y by linarith
  then show ?thesis
    using v days_before_month_ge [of "year d" "month d"]
    by (simp add: toordinal_def valid_date_def)
qed

lemma days_before_year_mono:
  assumes "y \<le> y'"
  shows "days_before_year y \<le> days_before_year y'"
proof -
  have "days_before_year y \<le> days_before_year (y + int n)" for n
  proof (induction n)
    case 0
    show ?case by simp
  next
    case (Suc n)
    have "days_before_year (y + int n + 1) =
        days_before_year (y + int n) + (if is_leap (y + int n) then 366 else 365)"
      by (rule days_before_year_Suc)
    then have "days_before_year (y + int n) \<le> days_before_year (y + int n + 1)"
      by (simp split: if_splits)
    moreover have "y + int (Suc n) = y + int n + 1" by simp
    ultimately show ?case using Suc by (simp only: order_trans)
  qed
  from this [of "nat (y' - y)"] show ?thesis using assms by simp
qed

lemma month_cases:
  assumes "1 \<le> (m::int)" "m \<le> 12"
  shows "m \<in> {1, 2, 3, 4, 5, 6, 7, 8, 9, 10, 11, 12}"
proof -
  have "m \<in> {1..12}" using assms by simp
  also have "{1..12::int} = set [1..12]" by simp
  also have "[1..12::int] = [1, 2, 3, 4, 5, 6, 7, 8, 9, 10, 11, 12]" by (simp add: upto_rec1)
  finally show ?thesis by simp
qed

lemma days_before_month_bound:
  assumes "1 \<le> m" "m \<le> 12"
  shows "days_before_month y m + days_in_month y m \<le> (if is_leap y then 366 else 365)"
  using month_cases [OF assms]
  by (auto simp: days_before_month_def days_in_month_def upto_rec1)

lemma toordinal_before_year:
  assumes "valid_date d" "year d < Y"
  shows "toordinal d \<le> days_before_year Y"
proof -
  have "toordinal d \<le> days_before_year (year d) + (if is_leap (year d) then 366 else 365)"
    using assms(1) days_before_month_bound [of "month d" "year d"]
    by (simp add: toordinal_def valid_date_def split: if_splits)
  also have "\<dots> = days_before_year (year d + 1)" by (simp only: days_before_year_Suc)
  also have "\<dots> \<le> days_before_year Y" using assms(2) by (intro days_before_year_mono) simp
  finally show ?thesis .
qed


lemma anchor_count_year_1000:
  assumes "valid_date a"
    and "toordinal \<lparr>year = 1000, month = 1, day = 22\<rparr> \<le> toordinal a"
  shows "47956 \<le> anchor_count a"
proof (rule ccontr)
  assume n: "\<not> 47956 \<le> anchor_count a"
  have t: "364899 \<le> toordinal a"
    using assms(2) by (simp add: toordinal_def days_before_year_def days_before_month_1)
  have y: "days_before_year 1000 = 364877" by (simp add: days_before_year_def)
  show False
  proof (cases "year a < 1000")
    case True
    from toordinal_before_year [OF assms(1) True] show False using t y by simp
  next
    case False
    then have "year a = 1000 \<and> month a = 1 \<and> day a < 22"
      using n assms(1) by (auto simp: anchor_count_def valid_date_def split: if_splits)
    then have "toordinal a < 364899"
      using y by (simp add: toordinal_def days_before_month_1)
    then show False using t by simp
  qed
qed

lemma anchor_count_year: "valid_date d \<Longrightarrow> 47953 \<le> anchor_count d \<Longrightarrow> 1000 \<le> year d"
  by (auto simp: anchor_count_def valid_date_def split: if_splits)

lemma anchor_count_third_month:
  "valid_date b \<Longrightarrow> 9 \<le> anchor_count b \<Longrightarrow> \<not> (year b = 1 \<and> month b \<le> 2)"
  by (auto simp: anchor_count_def valid_date_def split: if_splits)

lemma generate_weekly_walk:
  "generate_weekly s =
     (case strptime s of
        Inl e \<Rightarrow> Inl e
      | Inr X \<Rightarrow>
          (case sub_days X 1 of
             Inl e \<Rightarrow> Inl e
           | Inr a \<Rightarrow>
               if length (walk_back 4 a) = 4 then Inr (map strftime (walk_back 4 a))
               else Inl OverflowError))"
  unfolding generate_weekly_def
  by (auto split: sum.splits simp: weekly_loop_walk [of "[]", simplified] Let_def)

lemma generate_weekly_strftime:
  assumes "valid_date X"
  shows "generate_weekly (strftime X) = Inr weekly \<longleftrightarrow>
    (1000 \<le> year X \<and>
     (\<exists>a. sub_days X 1 = Inr a \<and> length (walk_back 4 a) = 4 \<and>
          weekly = map strftime (walk_back 4 a)))"
  unfolding generate_weekly_walk strptime_strftime [OF assms]
  by (cases "sub_days X 1") auto




text \<open>At 0001-01-23 the walk ends on the first day of the calendar.\<close>

lemma weekly_tier_of_first_weeks:
  "generate_weekly ''0001-01-23'' = Inr [''1-01-22'', ''1-01-15'', ''1-01-08'', ''1-01-01'']"
  by code_simp

section \<open>The monthly tier\<close>

text \<open>
  One round of the loop of \<open>generate_monthly\<close> moves \<open>temp_date\<close> to the same day of
  the month before: \<open>previous_month\<close> and \<open>previous_year\<close> of the source.
\<close>

definition month_before :: "date \<Rightarrow> date" where
  "month_before t =
     \<lparr>year = (if 1 < month t then year t else year t - 1),
      month = (if 1 < month t then month t - 1 else 12),
      day = day t\<rparr>"

declare monthly_loop.simps [simp del]

lemma monthly_loop_two_rounds:
  "monthly_loop t [s] =
     (case replace_month_year t (month (month_before t)) (year (month_before t)) of
        Inl e \<Rightarrow> Inl e
      | Inr t2 \<Rightarrow>
          (case replace_month_year t2 (month (month_before t2)) (year (month_before t2)) of
             Inl e \<Rightarrow> Inl e
           | Inr t3 \<Rightarrow> Inr [s, strftime t2, strftime t3]))"
proof -
  have three: "monthly_loop t3 [s, s2, s3] = Inr [s, s2, s3]" for t3 s2 s3
    by (subst monthly_loop.simps) simp
  have two: "monthly_loop t2 [s, s2] =
      (case replace_month_year t2 (month (month_before t2)) (year (month_before t2)) of
         Inl e \<Rightarrow> Inl e | Inr t3 \<Rightarrow> Inr [s, s2, strftime t3])" for t2 s2
    by (subst monthly_loop.simps) (simp add: month_before_def three Let_def split: sum.splits)
  show ?thesis
    by (subst monthly_loop.simps) (simp add: month_before_def two Let_def split: sum.splits)
qed

lemma month_before_first:
  assumes "valid_date t" "day t = 1" "1 < month t \<or> 1 < year t"
  shows "replace_month_year t (month (month_before t)) (year (month_before t)) = Inr (month_before t)"
    and "valid_date (month_before t)" and "day (month_before t) = 1"
    and "year (month_before t) * 12 + month (month_before t) = year t * 12 + month t - 1"
    and "toordinal (month_before t) < toordinal t"
proof -
  show v: "valid_date (month_before t)"
    using assms by (auto simp: valid_date_def month_before_def days_in_month_def)
  then show "replace_month_year t (month (month_before t)) (year (month_before t)) = Inr (month_before t)"
    by (simp add: replace_month_year_def new_date_def month_before_def)
  show "day (month_before t) = 1" using assms(2) by (simp add: month_before_def)
  show "year (month_before t) * 12 + month (month_before t) = year t * 12 + month t - 1"
    using assms(1) by (auto simp: month_before_def valid_date_def)
  show "toordinal (month_before t) < toordinal t"
  proof (cases "1 < month t")
    case True
    have "days_before_month (year t) (month t - 1 + 1) =
      days_before_month (year t) (month t - 1) + days_in_month (year t) (month t - 1)"
      using True by (intro days_before_month_Suc) simp
    then show ?thesis
      using True assms(2) days_in_month_ge [of "year t" "month t - 1"]
      by (simp add: toordinal_def month_before_def)
  next
    case False
    then have m: "month t = 1" using assms(1) by (simp add: valid_date_def)
    have "days_before_year (year t - 1 + 1) =
      days_before_year (year t - 1) + (if is_leap (year t - 1) then 366 else 365)"
      by (rule days_before_year_Suc)
    then show ?thesis
      using m assms(2) days_before_month_12 [of "year t - 1"]
      by (simp add: toordinal_def month_before_def days_before_month_1 split: if_splits)
  qed
qed

lemma month_before_fails:
  assumes "valid_date t" "day t = 1" "\<not> (1 < month t \<or> 1 < year t)"
  shows "replace_month_year t (month (month_before t)) (year (month_before t)) = Inl ValueError"
  using assms by (simp add: replace_month_year_def new_date_def month_before_def valid_date_def)

lemma first_of_month:
  assumes "valid_date a"
  shows "replace_day a 1 = Inr (a\<lparr>day := 1\<rparr>)" and "valid_date (a\<lparr>day := 1\<rparr>)"
    and "toordinal (a\<lparr>day := 1\<rparr>) \<le> toordinal a"
proof -
  show v: "valid_date (a\<lparr>day := 1\<rparr>)"
    using assms days_in_month_ge [of "year a" "month a"] by (simp add: valid_date_def)
  have "\<lparr>year = year a, month = month a, day = 1\<rparr> = a\<lparr>day := 1\<rparr>" by simp
  then show "replace_day a 1 = Inr (a\<lparr>day := 1\<rparr>)"
    using v by (simp add: replace_day_def new_date_def valid_date_def)
  show "toordinal (a\<lparr>day := 1\<rparr>) \<le> toordinal a"
    using assms by (simp add: toordinal_def valid_date_def)
qed

lemma generate_monthly_Inr:
  assumes "strptime s = Inr W"
  shows "generate_monthly s = Inr monthly \<longleftrightarrow>
    (\<exists>a. sub_days W 1 = Inr a \<and> \<not> (year a = 1 \<and> month a \<le> 2) \<and>
         monthly = map strftime [a\<lparr>day := 1\<rparr>, month_before (a\<lparr>day := 1\<rparr>),
                                 month_before (month_before (a\<lparr>day := 1\<rparr>))])"
proof (cases "sub_days W 1")
  case (Inl e)
  then show ?thesis
    by (simp add: generate_monthly_def assms)
next
  case (Inr a)
  have vW: "valid_date W" using assms by (rule strptime_valid)
  have va: "valid_date a" using valid_sub_days [OF vW Inr] by simp
  define m1 where "m1 = a\<lparr>day := 1\<rparr>"
  note f = first_of_month [OF va, folded m1_def]
  have m1: "day m1 = 1" "year m1 = year a" "month m1 = month a" by (simp_all add: m1_def)
  have g: "generate_monthly s = monthly_loop m1 [strftime m1]"
    by (simp only: generate_monthly_def assms Inr f(1) sum.case)
  show ?thesis
  proof (cases "1 < month m1 \<or> 1 < year m1")
    case False
    then have "year a = 1 \<and> month a \<le> 2" using va m1 by (auto simp: valid_date_def)
    moreover have "monthly_loop m1 [strftime m1] = Inl ValueError"
      by (simp add: monthly_loop_two_rounds month_before_fails [OF f(2) m1(1) False])
    ultimately show ?thesis using g Inr by simp
  next
    case r1: True
    define m2 where "m2 = month_before m1"
    note b1 = month_before_first [OF f(2) m1(1) r1, folded m2_def]
    show ?thesis
    proof (cases "1 < month m2 \<or> 1 < year m2")
      case False
      then have "year m2 = 1" "month m2 = 1" using b1(2) by (auto simp: valid_date_def)
      then have "year a = 1 \<and> month a \<le> 2"
        using b1(4) m1 f(2) by (auto simp: valid_date_def)
      moreover have "monthly_loop m1 [strftime m1] = Inl ValueError"
        by (simp add: monthly_loop_two_rounds b1(1) [unfolded m2_def]
            month_before_fails [OF b1(2) b1(3) False, unfolded m2_def])
      ultimately show ?thesis using g Inr by simp
    next
      case r2: True
      define m3 where "m3 = month_before m2"
      note b2 = month_before_first [OF b1(2) b1(3) r2, folded m3_def]
      have "\<not> (year a = 1 \<and> month a \<le> 2)"
        using r1 r2 b1(4) b1(2) m1 f(2) by (auto simp: valid_date_def)
      moreover have "monthly_loop m1 [strftime m1] = Inr [strftime m1, strftime m2, strftime m3]"
        by (simp add: monthly_loop_two_rounds b1(1) [unfolded m2_def]
            b2(1) [unfolded m3_def m2_def] m2_def m3_def)
      ultimately show ?thesis using g Inr by (auto simp: m1_def m2_def m3_def)
    qed
  qed
qed

lemma generate_monthly_strftime:
  assumes "valid_date W"
  shows "generate_monthly (strftime W) = Inr monthly \<longleftrightarrow>
    (1000 \<le> year W \<and>
     (\<exists>a. sub_days W 1 = Inr a \<and> \<not> (year a = 1 \<and> month a \<le> 2) \<and>
         monthly = map strftime [a\<lparr>day := 1\<rparr>, month_before (a\<lparr>day := 1\<rparr>),
                                 month_before (month_before (a\<lparr>day := 1\<rparr>))]))"
proof (cases "1000 \<le> year W")
  case True
  then have "strptime (strftime W) = Inr W" using strptime_strftime [OF assms] by simp
  from generate_monthly_Inr [OF this] show ?thesis using True by simp
next
  case False
  then have "strptime (strftime W) = Inl ValueError"
    using strptime_strftime [OF assms] by simp
  then have "generate_monthly (strftime W) = Inl ValueError"
    by (simp add: generate_monthly_def)
  then show ?thesis using False by simp
qed

section \<open>The three tiers together\<close>

lemma last_item_map: "xs \<noteq> [] \<Longrightarrow> last_item (map f xs) = Inr (f (last xs))"
  by (simp add: last_item_def last_map)

lemma seventh_day:
  assumes "length ds = 7" "\<forall>i < 7. sub_days D i = Inr (ds ! i)"
  shows "ds \<noteq> []" and "sub_days D 6 = Inr (last ds)"
    and "sub_days D 7 = sub_days (last ds) 1"
proof -
  show ne: "ds \<noteq> []" using assms(1) by auto
  have "last ds = ds ! 6" using assms(1) ne by (simp add: last_conv_nth)
  moreover have "(6::nat) < 7" by simp
  ultimately show six: "sub_days D 6 = Inr (last ds)" using assms(2) by metis
  have "sub_days D (6 + 1) = sub_days (last ds) 1"
    unfolding sub_days_add [of D 6 1] six by simp
  then show "sub_days D 7 = sub_days (last ds) 1" by simp
qed

text \<open>
  What \<open>save_days\<close> returns, and exactly when. The oldest daily date and the oldest
  weekly date pass through their formats to the next tier, so both lie in year 1000 or
  later whenever there is a result.
\<close>

lemma save_days_Inr:
  "save_days s = Inr r \<longleftrightarrow>
   (\<exists>D ds a b. strptime s = Inr D \<and> length ds = 7 \<and> (\<forall>i < 7. sub_days D i = Inr (ds ! i)) \<and>
      sub_days D 7 = Inr a \<and> length (walk_back 4 a) = 4 \<and>
      sub_days (last (walk_back 4 a)) 1 = Inr b \<and> \<not> (year b = 1 \<and> month b \<le> 2) \<and>
      1000 \<le> year (last ds) \<and> 1000 \<le> year (last (walk_back 4 a)) \<and>
      r = map strftime ds @ map strftime (walk_back 4 a) @
          map strftime [b\<lparr>day := 1\<rparr>, month_before (b\<lparr>day := 1\<rparr>),
                        month_before (month_before (b\<lparr>day := 1\<rparr>))])"
  (is "?L \<longleftrightarrow> ?R")
proof
  assume L: ?L
  then obtain daily where daily: "generate_daily s = Inr daily"
    unfolding save_days_def by (cases "generate_daily s") simp_all
  then obtain D ds where D: "strptime s = Inr D" "length ds = 7"
    "\<forall>i < 7. sub_days D i = Inr (ds ! i)" "daily = map strftime ds"
    unfolding generate_daily_Inr by blast
  note s7 = seventh_day [OF D(2,3)]
  have vD: "valid_date D" using D(1) by (rule strptime_valid)
  have v6: "valid_date (last ds)" using valid_sub_days [OF vD s7(2)] by simp
  have l1: "last_item daily = Inr (strftime (last ds))"
    unfolding D(4) using s7(1) by (rule last_item_map)
  from L have L1: "(case generate_weekly (strftime (last ds)) of
        Inl e \<Rightarrow> Inl e
      | Inr weekly \<Rightarrow>
          (case last_item weekly of
             Inl e \<Rightarrow> Inl e
           | Inr w \<Rightarrow>
               (case generate_monthly w of
                  Inl e \<Rightarrow> Inl e
                | Inr monthly \<Rightarrow> Inr (daily @ weekly @ monthly)))) = Inr r"
    by (simp add: save_days_def daily l1)
  then obtain weekly where weekly: "generate_weekly (strftime (last ds)) = Inr weekly"
    by (cases "generate_weekly (strftime (last ds))") simp_all
  then obtain a where a: "sub_days (last ds) 1 = Inr a" "length (walk_back 4 a) = 4"
    "weekly = map strftime (walk_back 4 a)" and y6: "1000 \<le> year (last ds)"
    unfolding generate_weekly_strftime [OF v6] by blast
  have va: "valid_date a" using valid_sub_days [OF v6 a(1)] by simp
  have ne: "walk_back 4 a \<noteq> []" using a(2) by auto
  then have "last (walk_back 4 a) \<in> set (walk_back 4 a)" by simp
  then have vw: "valid_date (last (walk_back 4 a))"
    using walk_back_props [OF va, of 4] by blast
  have l2: "last_item weekly = Inr (strftime (last (walk_back 4 a)))"
    unfolding a(3) using ne by (rule last_item_map)
  from L1 have L2: "(case generate_monthly (strftime (last (walk_back 4 a))) of
        Inl e \<Rightarrow> Inl e
      | Inr monthly \<Rightarrow> Inr (daily @ weekly @ monthly)) = Inr r"
    by (simp add: weekly l2)
  then obtain monthly where monthly:
    "generate_monthly (strftime (last (walk_back 4 a))) = Inr monthly"
    "r = daily @ weekly @ monthly"
    by (cases "generate_monthly (strftime (last (walk_back 4 a)))") auto
  from monthly(1) obtain b where b: "sub_days (last (walk_back 4 a)) 1 = Inr b"
    "\<not> (year b = 1 \<and> month b \<le> 2)"
    "monthly = map strftime [b\<lparr>day := 1\<rparr>, month_before (b\<lparr>day := 1\<rparr>),
                        month_before (month_before (b\<lparr>day := 1\<rparr>))]"
    and yw: "1000 \<le> year (last (walk_back 4 a))"
    unfolding generate_monthly_strftime [OF vw] by blast
  have "sub_days D 7 = Inr a" using s7(3) a(1) by simp
  then show ?R using D(1,2,3) a(2) b(1,2) y6 yw monthly(2) D(4) a(3) b(3) by blast
next
  assume ?R
  then obtain D ds a b where R: "strptime s = Inr D" "length ds = 7"
    "\<forall>i < 7. sub_days D i = Inr (ds ! i)" "sub_days D 7 = Inr a"
    "length (walk_back 4 a) = 4" "sub_days (last (walk_back 4 a)) 1 = Inr b"
    "\<not> (year b = 1 \<and> month b \<le> 2)"
    "1000 \<le> year (last ds)" "1000 \<le> year (last (walk_back 4 a))"
    "r = map strftime ds @ map strftime (walk_back 4 a) @
          map strftime [b\<lparr>day := 1\<rparr>, month_before (b\<lparr>day := 1\<rparr>),
                        month_before (month_before (b\<lparr>day := 1\<rparr>))]"
    by blast
  note s7 = seventh_day [OF R(2,3)]
  have vD: "valid_date D" using R(1) by (rule strptime_valid)
  have v6: "valid_date (last ds)" using valid_sub_days [OF vD s7(2)] by simp
  have a1: "sub_days (last ds) 1 = Inr a" using s7(3) R(4) by simp
  have va: "valid_date a" using valid_sub_days [OF v6 a1] by simp
  have ne: "walk_back 4 a \<noteq> []" using R(5) by auto
  then have "last (walk_back 4 a) \<in> set (walk_back 4 a)" by simp
  then have vw: "valid_date (last (walk_back 4 a))"
    using walk_back_props [OF va, of 4] by blast
  have daily: "generate_daily s = Inr (map strftime ds)"
    unfolding generate_daily_Inr using R(1,2,3) by blast
  have l1: "last_item (map strftime ds) = Inr (strftime (last ds))"
    using s7(1) by (rule last_item_map)
  have weekly: "generate_weekly (strftime (last ds)) = Inr (map strftime (walk_back 4 a))"
    unfolding generate_weekly_strftime [OF v6] using a1 R(5,8) by blast
  have l2: "last_item (map strftime (walk_back 4 a)) = Inr (strftime (last (walk_back 4 a)))"
    using ne by (rule last_item_map)
  have monthly: "generate_monthly (strftime (last (walk_back 4 a))) =
    Inr (map strftime [b\<lparr>day := 1\<rparr>, month_before (b\<lparr>day := 1\<rparr>),
                        month_before (month_before (b\<lparr>day := 1\<rparr>))])"
    unfolding generate_monthly_strftime [OF vw] using R(6,7,9) by blast
  show ?L by (simp add: save_days_def daily l1 weekly l2 monthly R(10))
qed

lemma decreasing_distinct: "sorted_wrt (\<lambda>x y. toordinal y < toordinal x) xs \<Longrightarrow> distinct xs"
  by (induction xs) auto

lemma decreasing_last:
  "sorted_wrt (\<lambda>x y. toordinal y < toordinal x) xs \<Longrightarrow> x \<in> set xs \<Longrightarrow>
   toordinal (last xs) \<le> toordinal x"
  by (induction xs) (auto simp: less_imp_le)

lemma daily_dates:
  assumes "valid_date D" "length ds = 7" "\<forall>i < 7. sub_days D i = Inr (ds ! i)"
  shows "\<forall>d \<in> set ds. valid_date d \<and> toordinal D - 6 \<le> toordinal d \<and> toordinal d \<le> toordinal D"
    and "sorted_wrt (\<lambda>x y. toordinal y < toordinal x) ds"
proof -
  have nth: "valid_date (ds ! i) \<and> toordinal (ds ! i) = toordinal D - int i" if "i < 7" for i
    using valid_sub_days [OF assms(1), of i "ds ! i"] assms(3) that by blast
  show "\<forall>d \<in> set ds. valid_date d \<and> toordinal D - 6 \<le> toordinal d \<and> toordinal d \<le> toordinal D"
  proof
    fix d assume "d \<in> set ds"
    then obtain i where i: "i < 7" "d = ds ! i" using assms(2) by (metis in_set_conv_nth)
    then show "valid_date d \<and> toordinal D - 6 \<le> toordinal d \<and> toordinal d \<le> toordinal D"
      using nth [OF i(1)] by simp
  qed
  show "sorted_wrt (\<lambda>x y. toordinal y < toordinal x) ds"
    unfolding sorted_wrt_iff_nth_less assms(2)
  proof (intro allI impI)
    fix i j :: nat assume "i < j" "j < 7"
    then show "toordinal (ds ! j) < toordinal (ds ! i)"
      using nth [of i] nth [of j] by simp
  qed
qed

lemma monthly_dates:
  assumes "valid_date b" "\<not> (year b = 1 \<and> month b \<le> 2)"
  defines "m1 \<equiv> b\<lparr>day := 1\<rparr>"
  defines "m2 \<equiv> month_before m1"
  defines "m3 \<equiv> month_before m2"
  shows "valid_date m1 \<and> valid_date m2 \<and> valid_date m3"
    and "day m1 = 1 \<and> day m2 = 1 \<and> day m3 = 1"
    and "year m1 = year b \<and> month m1 = month b"
    and "year m2 * 12 + month m2 = year m1 * 12 + month m1 - 1"
    and "year m3 * 12 + month m3 = year m2 * 12 + month m2 - 1"
    and "toordinal m3 < toordinal m2 \<and> toordinal m2 < toordinal m1 \<and> toordinal m1 \<le> toordinal b"
proof -
  note f = first_of_month [OF assms(1), folded m1_def]
  have m1: "day m1 = 1" "year m1 = year b" "month m1 = month b" by (simp_all add: m1_def)
  have r1: "1 < month m1 \<or> 1 < year m1"
    using assms(1,2) m1 by (auto simp: valid_date_def)
  note b1 = month_before_first [OF f(2) m1(1) r1, folded m2_def]
  have r2: "1 < month m2 \<or> 1 < year m2"
    using assms(1,2) by (auto simp: m2_def m1_def month_before_def valid_date_def)
  note b2 = month_before_first [OF b1(2) b1(3) r2, folded m3_def]
  show "valid_date m1 \<and> valid_date m2 \<and> valid_date m3" using f(2) b1(2) b2(2) by simp
  show "day m1 = 1 \<and> day m2 = 1 \<and> day m3 = 1" using m1(1) b1(3) b2(3) by simp
  show "year m1 = year b \<and> month m1 = month b" using m1 by simp
  show "year m2 * 12 + month m2 = year m1 * 12 + month m1 - 1" by (rule b1(4))
  show "year m3 * 12 + month m3 = year m2 * 12 + month m2 - 1" by (rule b2(4))
  show "toordinal m3 < toordinal m2 \<and> toordinal m2 < toordinal m1 \<and> toordinal m1 \<le> toordinal b"
    using b1(5) b2(5) f(3) by simp
qed

text \<open>
  \<open>save_days\<close> returns for every reference date from 1000-01-29 on: then the oldest daily
  date and the four weekly dates lie in year 1000 or later, where their formats are read
  back.
\<close>

lemma ordinal_in_january_1000: "toordinal \<lparr>year = 1000, month = 1, day = n\<rparr> = 364877 + n"
  by (simp add: toordinal_def days_before_year_def days_before_month_1)

lemma save_days_returns:
  assumes "strptime s = Inr D"
    and "toordinal \<lparr>year = 1000, month = 1, day = 29\<rparr> \<le> toordinal D"
  shows "\<exists>r. save_days s = Inr r"
proof -
  have vD: "valid_date D" using assms(1) by (rule strptime_valid)
  have o: "364906 \<le> toordinal D" using assms(2) by (simp add: ordinal_in_january_1000)
  then have "6 < toordinal D" by simp
  from generate_daily_dates [OF assms(1) this]
  obtain ds where ds: "length ds = 7" "\<forall>i < 7. sub_days D i = Inr (ds ! i)" by blast
  note s7 = seventh_day [OF ds]
  have v6: "valid_date (last ds)" "toordinal (last ds) = toordinal D - 6"
    using valid_sub_days [OF vD s7(2)] by simp_all
  have y6: "1000 \<le> year (last ds)"
  proof (rule ccontr)
    assume "\<not> 1000 \<le> year (last ds)"
    then have "toordinal (last ds) \<le> days_before_year 1000"
      by (intro toordinal_before_year [OF v6(1)]) simp
    then show False using v6(2) o by (simp add: days_before_year_def)
  qed
  obtain a where a: "sub_days D 7 = Inr a"
    using sub_days_ok [OF vD, of 7] o by auto
  have va: "valid_date a" "toordinal a = toordinal D - 7"
    using valid_sub_days [OF vD a] by simp_all
  have "toordinal \<lparr>year = 1000, month = 1, day = 22\<rparr> \<le> toordinal a"
    using va(2) o by (simp add: ordinal_in_january_1000)
  then have ac: "47956 \<le> anchor_count a" by (rule anchor_count_year_1000 [OF va(1)])
  note wl = walk_back_length [OF va(1), of 4]
  have four: "length (walk_back 4 a) = 4" using wl ac by simp
  then have ne: "walk_back 4 a \<noteq> []" by auto
  then have acl: "anchor_count (last (walk_back 4 a)) = anchor_count a - 3"
    using wl four by simp
  have "last (walk_back 4 a) \<in> set (walk_back 4 a)" using ne by simp
  then have vl: "valid_date (last (walk_back 4 a))" "day (last (walk_back 4 a)) \<in> {22, 15, 8, 1}"
    using walk_back_props [OF va(1), of 4] by blast+
  have yl: "1000 \<le> year (last (walk_back 4 a))"
    using acl ac by (intro anchor_count_year [OF vl(1)]) simp
  then have "1 < toordinal (last (walk_back 4 a))"
    using toordinal_later_years [OF vl(1)] by simp
  then obtain b where b: "prev_day (last (walk_back 4 a)) = Inr b"
    using prev_day_ok [OF vl(1)] by blast
  then have sb: "sub_days (last (walk_back 4 a)) 1 = Inr b" by simp
  have vb: "valid_date b" using valid_prev_day [OF vl(1) b] by simp
  have "anchor_count b = anchor_count (last (walk_back 4 a)) - 1"
    using b by (rule prev_day_hit(1) [OF vl])
  then have "9 \<le> anchor_count b" using acl ac by simp
  then have "\<not> (year b = 1 \<and> month b \<le> 2)" by (rule anchor_count_third_month [OF vb])
  then show ?thesis
    unfolding save_days_Inr using assms(1) ds a four sb y6 yl by blast
qed

text \<open>
  1000-01-29 is the first such date. One day earlier the oldest weekly date is
  0999-12-22, written \<open>999-12-22\<close>, and \<open>generate_monthly\<close> does not read it; in the
  first days of the calendar the daily tier already raises.
\<close>

lemma save_days_first_result:
  "save_days ''1000-01-29'' =
     Inr [''1000-01-29'', ''1000-01-28'', ''1000-01-27'', ''1000-01-26'', ''1000-01-25'',
          ''1000-01-24'', ''1000-01-23'',
          ''1000-01-22'', ''1000-01-15'', ''1000-01-08'', ''1000-01-01'',
          ''999-12-01'', ''999-11-01'', ''999-10-01'']"
  "save_days ''1000-01-28'' = Inl ValueError"
  "save_days ''0001-01-06'' = Inl OverflowError"
  by code_simp+

lemma tiers_decreasing:
  assumes "valid_date D" "length ds = 7" "\<forall>i < 7. sub_days D i = Inr (ds ! i)"
    and "sub_days D 7 = Inr a" "length (walk_back 4 a) = 4"
    and "sub_days (last (walk_back 4 a)) 1 = Inr b" "\<not> (year b = 1 \<and> month b \<le> 2)"
  defines "ws \<equiv> walk_back 4 a"
  defines "ms \<equiv> [b\<lparr>day := 1\<rparr>, month_before (b\<lparr>day := 1\<rparr>),
                  month_before (month_before (b\<lparr>day := 1\<rparr>))]"
  shows "\<forall>d \<in> set ds. valid_date d \<and> toordinal D - 6 \<le> toordinal d \<and> toordinal d \<le> toordinal D"
    and "\<forall>w \<in> set ws. valid_date w \<and> day w \<in> {22, 15, 8, 1} \<and> toordinal w \<le> toordinal D - 7"
    and "\<forall>m \<in> set ms. valid_date m \<and> day m = 1 \<and> (\<forall>w \<in> set ws. toordinal m < toordinal w)"
    and "sorted_wrt (\<lambda>x y. toordinal y < toordinal x) (ds @ ws @ ms)"
    and "valid_date (last ws) \<and> valid_date b"
proof -
  note dd = daily_dates [OF assms(1,2,3)]
  have va: "valid_date a" "toordinal a = toordinal D - 7"
    using valid_sub_days [OF assms(1,4)] by simp_all
  note wp = walk_back_props [OF va(1), of 4, folded ws_def]
  have ne: "ws \<noteq> []" using assms(5) by (auto simp: ws_def)
  then have l: "last ws \<in> set ws" by simp
  then have vl: "valid_date (last ws)" using wp by blast
  have vb: "valid_date b" "toordinal b = toordinal (last ws) - 1"
    using valid_sub_days [OF vl assms(6) [folded ws_def]] by simp_all
  note md = monthly_dates [OF vb(1) assms(7)]
  have low: "toordinal (last ws) \<le> toordinal w" if "w \<in> set ws" for w
    using decreasing_last [of ws w] wp that by blast
  show 1: "\<forall>d \<in> set ds. valid_date d \<and> toordinal D - 6 \<le> toordinal d \<and> toordinal d \<le> toordinal D"
    by (rule dd(1))
  show 2: "\<forall>w \<in> set ws. valid_date w \<and> day w \<in> {22, 15, 8, 1} \<and> toordinal w \<le> toordinal D - 7"
    using wp va(2) by fastforce
  have mb: "toordinal m \<le> toordinal b" if "m \<in> set ms" for m
    using that md(6) by (auto simp: ms_def)
  show 3: "\<forall>m \<in> set ms. valid_date m \<and> day m = 1 \<and> (\<forall>w \<in> set ws. toordinal m < toordinal w)"
  proof (intro ballI conjI)
    fix m assume m: "m \<in> set ms"
    show "valid_date m" "day m = 1" using m md(1,2) by (auto simp: ms_def)
    fix w assume "w \<in> set ws"
    then show "toordinal m < toordinal w" using low [of w] mb [OF m] vb(2) by simp
  qed
  have sm: "sorted_wrt (\<lambda>x y. toordinal y < toordinal x) ms"
    using md(6) by (simp add: ms_def)
  have "\<forall>d \<in> set ds. \<forall>x \<in> set (ws @ ms). toordinal x < toordinal d"
  proof (intro ballI)
    fix d x assume d: "d \<in> set ds" and "x \<in> set (ws @ ms)"
    then consider "x \<in> set ws" | "x \<in> set ms" by auto
    then show "toordinal x < toordinal d"
    proof cases
      case 1
      then show ?thesis using 2 dd(1) d by fastforce
    next
      case 2
      then have "toordinal x < toordinal (last ws)" using 3 l by blast
      moreover have "toordinal (last ws) \<le> toordinal D - 7" using \<open>\<forall>w \<in> set ws. _\<close> l by blast
      ultimately show ?thesis using dd(1) d by fastforce
    qed
  qed
  moreover have "\<forall>w \<in> set ws. \<forall>m \<in> set ms. toordinal m < toordinal w" using 3 by blast
  ultimately show "sorted_wrt (\<lambda>x y. toordinal y < toordinal x) (ds @ ws @ ms)"
    using dd(2) wp sm by (simp add: sorted_wrt_append)
  show "valid_date (last ws) \<and> valid_date b" using vl vb(1) by simp
qed

lemma formats_distinct:
  assumes "\<forall>d \<in> set xs. valid_date d" "sorted_wrt (\<lambda>x y. toordinal y < toordinal x) xs"
  shows "distinct (map strftime xs)"
proof -
  have "inj_on strftime (set xs)"
    using assms(1) by (auto intro!: inj_onI strftime_inj)
  then show ?thesis using decreasing_distinct [OF assms(2)] by (simp add: distinct_map)
qed

lemma save_days_dates:
  assumes "save_days s = Inr r"
  shows "\<exists>D ds a b ws ms. strptime s = Inr D \<and> valid_date D \<and> length ds = 7 \<and>
    (\<forall>i < 7. sub_days D i = Inr (ds ! i)) \<and> sub_days D 7 = Inr a \<and>
    ws = walk_back 4 a \<and> length ws = 4 \<and> sub_days (last ws) 1 = Inr b \<and>
    valid_date (last ws) \<and> valid_date b \<and> \<not> (year b = 1 \<and> month b \<le> 2) \<and>
    ms = [b\<lparr>day := 1\<rparr>, month_before (b\<lparr>day := 1\<rparr>), month_before (month_before (b\<lparr>day := 1\<rparr>))] \<and>
    r = map strftime ds @ map strftime ws @ map strftime ms \<and>
    (\<forall>d \<in> set ds. valid_date d \<and> toordinal D - 6 \<le> toordinal d \<and> toordinal d \<le> toordinal D) \<and>
    (\<forall>w \<in> set ws. valid_date w \<and> day w \<in> {22, 15, 8, 1} \<and> toordinal w \<le> toordinal D - 7) \<and>
    (\<forall>m \<in> set ms. valid_date m \<and> day m = 1 \<and> (\<forall>w \<in> set ws. toordinal m < toordinal w)) \<and>
    sorted_wrt (\<lambda>x y. toordinal y < toordinal x) (ds @ ws @ ms)"
proof -
  from assms obtain D ds a b where R: "strptime s = Inr D" "length ds = 7"
    "\<forall>i < 7. sub_days D i = Inr (ds ! i)" "sub_days D 7 = Inr a"
    "length (walk_back 4 a) = 4" "sub_days (last (walk_back 4 a)) 1 = Inr b"
    "\<not> (year b = 1 \<and> month b \<le> 2)"
    "r = map strftime ds @ map strftime (walk_back 4 a) @
          map strftime [b\<lparr>day := 1\<rparr>, month_before (b\<lparr>day := 1\<rparr>),
                        month_before (month_before (b\<lparr>day := 1\<rparr>))]"
    unfolding save_days_Inr by blast
  have vD: "valid_date D" using R(1) by (rule strptime_valid)
  note t = tiers_decreasing [OF vD R(2,3,4,5,6,7)]
  show ?thesis
    apply (rule exI [where x = D], rule exI [where x = ds], rule exI [where x = a])
    apply (rule exI [where x = b], rule exI [where x = "walk_back 4 a"])
    apply (rule exI [where x = "[b\<lparr>day := 1\<rparr>, month_before (b\<lparr>day := 1\<rparr>),
                        month_before (month_before (b\<lparr>day := 1\<rparr>))]"])
    apply (intro conjI)
    apply (rule R(1) vD R(2) R(3) R(4) refl R(5) R(6) R(7) R(8) t(1) t(2) t(3) t(4)
        conjunct1 [OF t(5)] conjunct2 [OF t(5)])+
    done
qed

lemma save_days_distinct:
  assumes "save_days s = Inr r"
  shows "length r = 14 \<and> distinct r"
proof -
  from save_days_dates [OF assms] obtain D ds a b ws ms where g:
    "length ds = 7" "length ws = 4"
    "ms = [b\<lparr>day := 1\<rparr>, month_before (b\<lparr>day := 1\<rparr>), month_before (month_before (b\<lparr>day := 1\<rparr>))]"
    "r = map strftime ds @ map strftime ws @ map strftime ms"
    "\<forall>d \<in> set ds. valid_date d \<and> toordinal D - 6 \<le> toordinal d \<and> toordinal d \<le> toordinal D"
    "\<forall>w \<in> set ws. valid_date w \<and> day w \<in> {22, 15, 8, 1} \<and> toordinal w \<le> toordinal D - 7"
    "\<forall>m \<in> set ms. valid_date m \<and> day m = 1 \<and> (\<forall>w \<in> set ws. toordinal m < toordinal w)"
    "sorted_wrt (\<lambda>x y. toordinal y < toordinal x) (ds @ ws @ ms)"
    by (elim exE conjE) (rule that)
  have f: "length ds = 7" "length ws = 4" "length ms = 3"
    "r = map strftime ds @ map strftime ws @ map strftime ms"
    "\<forall>d \<in> set ds. valid_date d" "\<forall>w \<in> set ws. valid_date w" "\<forall>m \<in> set ms. valid_date m"
    "sorted_wrt (\<lambda>x y. toordinal y < toordinal x) (ds @ ws @ ms)"
    using g(1,2,4,8) apply simp_all
    using g(3) apply simp
    using g(5) apply blast
    using g(6) apply blast
    using g(7) apply blast
    done
  have "\<forall>d \<in> set (ds @ ws @ ms). valid_date d" using f(5,6,7) by auto
  from formats_distinct [OF this f(8)] have "distinct r" by (simp add: f(4))
  then show ?thesis using f(1,2,3,4) by simp
qed

section \<open>The retention set\<close>

text \<open>
  C1. The weekly tier of \<open>save_days\<close> is the walk of the specification (back day by day,
  collecting the dates on day 22, 15, 8 or 1 of their month, stopping at four), and its
  anchor is the reference date minus 7 days: \<open>save_days\<close> hands the oldest daily date,
  \<open>D - 6\<close>, to \<open>generate_weekly\<close>, which starts one day before what it is given. The
  anchor is not the reference date minus 1 day: for 2024-03-16 that walk would start with
  2024-03-15, which the weekly tier does not hold. This is so for every reference date
  from 1000-01-29 on, the first for which \<open>save_days\<close> returns: for 1000-01-28 the
  oldest weekly date is written \<open>999-12-22\<close>, \<open>generate_monthly\<close> refuses it, and
  \<open>save_days\<close> returns no tier at all.
\<close>

theorem weekly_tier_walks_back_from_a_week_before:
  assumes "strptime s = Inr D"
    and "toordinal \<lparr>year = 1000, month = 1, day = 29\<rparr> \<le> toordinal D"
  shows "\<exists>a daily monthly. sub_days D 7 = Inr a \<and> length (walk_back 4 a) = 4 \<and>
    length daily = 7 \<and> length monthly = 3 \<and>
    save_days s = Inr (daily @ map strftime (walk_back 4 a) @ monthly)"
proof -
  obtain r where r: "save_days s = Inr r" using save_days_returns [OF assms] by blast
  from save_days_dates [OF r] obtain D' ds a b ws ms where g:
    "strptime s = Inr D'" "length ds = 7" "sub_days D' 7 = Inr a" "ws = walk_back 4 a"
    "length ws = 4"
    "ms = [b\<lparr>day := 1\<rparr>, month_before (b\<lparr>day := 1\<rparr>), month_before (month_before (b\<lparr>day := 1\<rparr>))]"
    "r = map strftime ds @ map strftime ws @ map strftime ms"
    by (elim exE conjE) (rule that)
  have D: "D' = D" using g(1) assms(1) by simp
  have a: "sub_days D 7 = Inr a" using g(3) D by simp
  have four: "length (walk_back 4 a) = 4" using g(4,5) by simp
  have l: "length (map strftime ds) = 7" "length (map strftime ms) = 3" using g(2,6) by simp_all
  have "save_days s = Inr (map strftime ds @ map strftime (walk_back 4 a) @ map strftime ms)"
    using r g(7,4) by simp
  with a four l show ?thesis by blast
qed

theorem weekly_tier_walks_back_from_a_week_before_witness:
  "strptime ''2024-03-16'' = Inr \<lparr>year = 2024, month = 3, day = 16\<rparr> \<and>
   toordinal \<lparr>year = 1000, month = 1, day = 29\<rparr> \<le> toordinal \<lparr>year = 2024, month = 3, day = 16\<rparr> \<and>
   (\<exists>a daily monthly. sub_days \<lparr>year = 2024, month = 3, day = 16\<rparr> 7 = Inr a \<and>
      length (walk_back 4 a) = 4 \<and> length daily = 7 \<and> length monthly = 3 \<and>
      save_days ''2024-03-16'' = Inr (daily @ map strftime (walk_back 4 a) @ monthly)) \<and>
   sub_days \<lparr>year = 2024, month = 3, day = 16\<rparr> 7 = Inr \<lparr>year = 2024, month = 3, day = 9\<rparr> \<and>
   map strftime (walk_back 4 \<lparr>year = 2024, month = 3, day = 9\<rparr>) =
     [''2024-03-08'', ''2024-03-01'', ''2024-02-22'', ''2024-02-15'']"
proof -
  let ?D = "\<lparr>year = 2024, month = 3, day = 16\<rparr>"
  have p: "strptime ''2024-03-16'' = Inr ?D" by code_simp
  have "toordinal ?D = 738961" by code_simp
  then have r: "toordinal \<lparr>year = 1000, month = 1, day = 29\<rparr> \<le> toordinal ?D"
    by (simp add: ordinal_in_january_1000)
  note t = weekly_tier_walks_back_from_a_week_before [OF p r]
  have a: "sub_days ?D 7 = Inr \<lparr>year = 2024, month = 3, day = 9\<rparr>" by code_simp
  have w: "map strftime (walk_back 4 \<lparr>year = 2024, month = 3, day = 9\<rparr>) =
     [''2024-03-08'', ''2024-03-01'', ''2024-02-22'', ''2024-02-15'']" by code_simp
  show ?thesis using p r t a w by (intro conjI)
qed

theorem weekly_tier_anchor_is_not_the_day_before:
  "sub_days \<lparr>year = 2024, month = 3, day = 16\<rparr> 1 = Inr \<lparr>year = 2024, month = 3, day = 15\<rparr> \<and>
   map strftime (walk_back 4 \<lparr>year = 2024, month = 3, day = 15\<rparr>) =
     [''2024-03-15'', ''2024-03-08'', ''2024-03-01'', ''2024-02-22''] \<and>
   save_days ''2024-03-16'' =
     Inr ([''2024-03-16'', ''2024-03-15'', ''2024-03-14'', ''2024-03-13'', ''2024-03-12'',
           ''2024-03-11'', ''2024-03-10''] @
          [''2024-03-08'', ''2024-03-01'', ''2024-02-22'', ''2024-02-15''] @
          [''2024-02-01'', ''2024-01-01'', ''2023-12-01'']) \<and>
   strptime ''1000-01-28'' = Inr \<lparr>year = 1000, month = 1, day = 28\<rparr> \<and>
   save_days ''1000-01-28'' = Inl ValueError"
  by code_simp

text \<open>
  C6. The monthly tier of \<open>save_days\<close> is anchored at the oldest weekly date minus 1 day:
  it is the first day of the anchor's month and the first days of the two months before
  it (December of the year before follows January), three valid dates on day 1 of
  consecutive months, strictly decreasing. This is so for every reference date from
  1000-01-29 on, the first for which \<open>save_days\<close> returns. It is not so for every valid
  reference date: for 1000-01-28 the oldest weekly date is written \<open>999-12-22\<close>, which
  \<open>generate_monthly\<close> refuses with a \<open>ValueError\<close>, and for 0999-06-15 the oldest
  daily date is written \<open>999-06-09\<close>, which \<open>generate_weekly\<close> refuses; there is no
  monthly tier.
\<close>

theorem monthly_tier_three_first_days:
  assumes "strptime s = Inr D"
    and "toordinal \<lparr>year = 1000, month = 1, day = 29\<rparr> \<le> toordinal D"
  shows "\<exists>daily a b m1 m2 m3.
    save_days s = Inr (daily @ map strftime (walk_back 4 a) @ map strftime [m1, m2, m3]) \<and>
    length daily = 7 \<and> sub_days D 7 = Inr a \<and> length (walk_back 4 a) = 4 \<and>
    sub_days (last (walk_back 4 a)) 1 = Inr b \<and>
    m1 = b\<lparr>day := 1\<rparr> \<and> m2 = month_before m1 \<and> m3 = month_before m2 \<and>
    valid_date m1 \<and> valid_date m2 \<and> valid_date m3 \<and>
    day m1 = 1 \<and> day m2 = 1 \<and> day m3 = 1 \<and>
    year m2 * 12 + month m2 = year m1 * 12 + month m1 - 1 \<and>
    year m3 * 12 + month m3 = year m2 * 12 + month m2 - 1 \<and>
    toordinal m3 < toordinal m2 \<and> toordinal m2 < toordinal m1"
proof -
  obtain r where r: "save_days s = Inr r" using save_days_returns [OF assms] by blast
  from save_days_dates [OF r] obtain D' ds a b ws ms where g:
    "strptime s = Inr D'" "length ds = 7" "sub_days D' 7 = Inr a" "ws = walk_back 4 a"
    "length ws = 4" "sub_days (last ws) 1 = Inr b" "valid_date b"
    "\<not> (year b = 1 \<and> month b \<le> 2)"
    "ms = [b\<lparr>day := 1\<rparr>, month_before (b\<lparr>day := 1\<rparr>), month_before (month_before (b\<lparr>day := 1\<rparr>))]"
    "r = map strftime ds @ map strftime ws @ map strftime ms"
    by (elim exE conjE) (rule that)
  have D: "D' = D" using g(1) assms(1) by simp
  define m1 where "m1 = b\<lparr>day := 1\<rparr>"
  define m2 where "m2 = month_before m1"
  define m3 where "m3 = month_before m2"
  note md = monthly_dates [OF g(7,8), folded m1_def, folded m2_def, folded m3_def]
  have 1: "save_days s = Inr (map strftime ds @ map strftime (walk_back 4 a) @ map strftime [m1, m2, m3])"
    using r g(10,9,4) by (simp add: m1_def m2_def m3_def)
  have 2: "length (map strftime ds) = 7" using g(2) by simp
  have 3: "sub_days D 7 = Inr a" using g(3) D by simp
  have 4: "length (walk_back 4 a) = 4" using g(4,5) by simp
  have 5: "sub_days (last (walk_back 4 a)) 1 = Inr b" using g(4,6) by simp
  show ?thesis
    apply (rule exI [where x = "map strftime ds"], rule exI [where x = a], rule exI [where x = b])
    apply (rule exI [where x = m1], rule exI [where x = m2], rule exI [where x = m3])
    using 1 2 3 4 5 md m1_def m2_def m3_def apply simp
    done
qed

theorem monthly_tier_three_first_days_witness:
  "strptime ''2024-02-10'' = Inr \<lparr>year = 2024, month = 2, day = 10\<rparr> \<and>
   toordinal \<lparr>year = 1000, month = 1, day = 29\<rparr> \<le> toordinal \<lparr>year = 2024, month = 2, day = 10\<rparr> \<and>
   (\<exists>daily a b m1 m2 m3.
      save_days ''2024-02-10'' =
        Inr (daily @ map strftime (walk_back 4 a) @ map strftime [m1, m2, m3]) \<and>
      length daily = 7 \<and> sub_days \<lparr>year = 2024, month = 2, day = 10\<rparr> 7 = Inr a \<and>
      length (walk_back 4 a) = 4 \<and>
      sub_days (last (walk_back 4 a)) 1 = Inr b \<and>
      m1 = b\<lparr>day := 1\<rparr> \<and> m2 = month_before m1 \<and> m3 = month_before m2 \<and>
      valid_date m1 \<and> valid_date m2 \<and> valid_date m3 \<and>
      day m1 = 1 \<and> day m2 = 1 \<and> day m3 = 1 \<and>
      year m2 * 12 + month m2 = year m1 * 12 + month m1 - 1 \<and>
      year m3 * 12 + month m3 = year m2 * 12 + month m2 - 1 \<and>
      toordinal m3 < toordinal m2 \<and> toordinal m2 < toordinal m1) \<and>
   save_days ''2024-02-10'' =
     Inr [''2024-02-10'', ''2024-02-09'', ''2024-02-08'', ''2024-02-07'', ''2024-02-06'',
          ''2024-02-05'', ''2024-02-04'',
          ''2024-02-01'', ''2024-01-22'', ''2024-01-15'', ''2024-01-08'',
          ''2024-01-01'', ''2023-12-01'', ''2023-11-01'']"
proof -
  let ?D = "\<lparr>year = 2024, month = 2, day = 10\<rparr>"
  have p: "strptime ''2024-02-10'' = Inr ?D" by code_simp
  have "toordinal ?D = 738926" by code_simp
  then have r: "toordinal \<lparr>year = 1000, month = 1, day = 29\<rparr> \<le> toordinal ?D"
    by (simp add: ordinal_in_january_1000)
  note t = monthly_tier_three_first_days [OF p r]
  have e: "save_days ''2024-02-10'' =
     Inr [''2024-02-10'', ''2024-02-09'', ''2024-02-08'', ''2024-02-07'', ''2024-02-06'',
          ''2024-02-05'', ''2024-02-04'',
          ''2024-02-01'', ''2024-01-22'', ''2024-01-15'', ''2024-01-08'',
          ''2024-01-01'', ''2023-12-01'', ''2023-11-01'']" by code_simp
  show ?thesis using p r t e by (intro conjI)
qed

theorem monthly_tier_missing_before_year_1000:
  "strptime ''0999-06-15'' = Inr \<lparr>year = 999, month = 6, day = 15\<rparr> \<and>
   valid_date \<lparr>year = 999, month = 6, day = 15\<rparr> \<and>
   generate_daily ''0999-06-15'' =
     Inr [''999-06-15'', ''999-06-14'', ''999-06-13'', ''999-06-12'', ''999-06-11'',
          ''999-06-10'', ''999-06-09''] \<and>
   generate_weekly ''999-06-09'' = Inl ValueError \<and>
   save_days ''0999-06-15'' = Inl ValueError \<and>
   strptime ''1000-01-28'' = Inr \<lparr>year = 1000, month = 1, day = 28\<rparr> \<and>
   generate_monthly ''999-12-22'' = Inl ValueError \<and>
   save_days ''1000-01-28'' = Inl ValueError"
  by code_simp

text \<open>
  C10. The three tiers of \<open>save_days\<close> do not overlap: the daily dates lie from \<open>D - 6\<close>
  to \<open>D\<close>, every weekly date on or before \<open>D - 7\<close>, every monthly date strictly before
  every weekly date; the fourteen strings are distinct. This is so for every reference
  date from 1000-01-29 on. It is not so for every valid reference date: for 1000-01-28
  the oldest weekly date is written \<open>999-12-22\<close>, \<open>generate_monthly\<close> refuses it with a
  \<open>ValueError\<close>, and there is no retention set.
\<close>

theorem tiers_are_disjoint_and_fourteen:
  assumes "strptime s = Inr D"
    and "toordinal \<lparr>year = 1000, month = 1, day = 29\<rparr> \<le> toordinal D"
  shows "\<exists>ds ws ms.
    save_days s = Inr (map strftime ds @ map strftime ws @ map strftime ms) \<and>
    length ds = 7 \<and> length ws = 4 \<and> length ms = 3 \<and>
    (\<forall>d \<in> set ds \<union> set ws \<union> set ms. valid_date d) \<and>
    (\<forall>d \<in> set ds. toordinal D - 6 \<le> toordinal d \<and> toordinal d \<le> toordinal D) \<and>
    (\<forall>w \<in> set ws. toordinal w \<le> toordinal D - 7) \<and>
    (\<forall>m \<in> set ms. \<forall>w \<in> set ws. toordinal m < toordinal w) \<and>
    set (map strftime ds) \<inter> set (map strftime ws) = {} \<and>
    set (map strftime ds) \<inter> set (map strftime ms) = {} \<and>
    set (map strftime ws) \<inter> set (map strftime ms) = {} \<and>
    distinct (map strftime ds @ map strftime ws @ map strftime ms) \<and>
    card (set (map strftime ds @ map strftime ws @ map strftime ms)) = 14"
proof -
  obtain r where r: "save_days s = Inr r" using save_days_returns [OF assms] by blast
  from save_days_dates [OF r] obtain D' ds a b ws ms where g:
    "strptime s = Inr D'" "length ds = 7" "length ws = 4"
    "ms = [b\<lparr>day := 1\<rparr>, month_before (b\<lparr>day := 1\<rparr>), month_before (month_before (b\<lparr>day := 1\<rparr>))]"
    "r = map strftime ds @ map strftime ws @ map strftime ms"
    "\<forall>d \<in> set ds. valid_date d \<and> toordinal D' - 6 \<le> toordinal d \<and> toordinal d \<le> toordinal D'"
    "\<forall>w \<in> set ws. valid_date w \<and> day w \<in> {22, 15, 8, 1} \<and> toordinal w \<le> toordinal D' - 7"
    "\<forall>m \<in> set ms. valid_date m \<and> day m = 1 \<and> (\<forall>w \<in> set ws. toordinal m < toordinal w)"
    by (elim exE conjE) (rule that)
  have D: "D' = D" using g(1) assms(1) by simp
  note sd = save_days_distinct [OF r]
  have 1: "save_days s = Inr (map strftime ds @ map strftime ws @ map strftime ms)"
    using r g(5) by simp
  have 2: "length ms = 3" using g(4) by simp
  have 3: "\<forall>d \<in> set ds. toordinal D - 6 \<le> toordinal d \<and> toordinal d \<le> toordinal D"
    using g(6) D by blast
  have 4: "\<forall>w \<in> set ws. toordinal w \<le> toordinal D - 7" using g(7) D by blast
  have 5: "\<forall>m \<in> set ms. \<forall>w \<in> set ws. toordinal m < toordinal w" using g(8) by blast
  have 9: "\<forall>d \<in> set ds \<union> set ws \<union> set ms. valid_date d" using g(6,7,8) by blast
  have 6: "distinct (map strftime ds @ map strftime ws @ map strftime ms)"
    using sd g(5) by simp
  then have 7: "set (map strftime ds) \<inter> set (map strftime ws) = {}"
    "set (map strftime ds) \<inter> set (map strftime ms) = {}"
    "set (map strftime ws) \<inter> set (map strftime ms) = {}"
    by (auto simp only: distinct_append set_append)
  have "card (set (map strftime ds @ map strftime ws @ map strftime ms)) =
      length (map strftime ds @ map strftime ws @ map strftime ms)"
    using 6 by (rule distinct_card)
  then have 8: "card (set (map strftime ds @ map strftime ws @ map strftime ms)) = 14"
    using g(2,3) 2 by simp
  show ?thesis
    apply (rule exI [where x = ds], rule exI [where x = ws], rule exI [where x = ms])
    apply (intro conjI)
    apply (rule 1 g(2) g(3) 2 9 3 4 5 7 6 8)+
    done
qed

theorem tiers_are_disjoint_and_fourteen_witness:
  "strptime ''1000-01-29'' = Inr \<lparr>year = 1000, month = 1, day = 29\<rparr> \<and>
   toordinal \<lparr>year = 1000, month = 1, day = 29\<rparr> \<le> toordinal \<lparr>year = 1000, month = 1, day = 29\<rparr> \<and>
   (\<exists>ds ws ms.
      save_days ''1000-01-29'' = Inr (map strftime ds @ map strftime ws @ map strftime ms) \<and>
      length ds = 7 \<and> length ws = 4 \<and> length ms = 3 \<and>
      set (map strftime ds) \<inter> set (map strftime ws) = {} \<and>
      set (map strftime ds) \<inter> set (map strftime ms) = {} \<and>
      set (map strftime ws) \<inter> set (map strftime ms) = {} \<and>
      distinct (map strftime ds @ map strftime ws @ map strftime ms) \<and>
      card (set (map strftime ds @ map strftime ws @ map strftime ms)) = 14) \<and>
   save_days ''1000-01-29'' =
     Inr [''1000-01-29'', ''1000-01-28'', ''1000-01-27'', ''1000-01-26'', ''1000-01-25'',
          ''1000-01-24'', ''1000-01-23'',
          ''1000-01-22'', ''1000-01-15'', ''1000-01-08'', ''1000-01-01'',
          ''999-12-01'', ''999-11-01'', ''999-10-01'']"
proof -
  let ?D = "\<lparr>year = 1000, month = 1, day = 29\<rparr>"
  have p: "strptime ''1000-01-29'' = Inr ?D" by code_simp
  have r: "toordinal ?D \<le> toordinal ?D" by simp
  from tiers_are_disjoint_and_fourteen [OF p r] obtain ds ws ms where
    "save_days ''1000-01-29'' = Inr (map strftime ds @ map strftime ws @ map strftime ms)"
    "length ds = 7" "length ws = 4" "length ms = 3"
    "set (map strftime ds) \<inter> set (map strftime ws) = {}"
    "set (map strftime ds) \<inter> set (map strftime ms) = {}"
    "set (map strftime ws) \<inter> set (map strftime ms) = {}"
    "distinct (map strftime ds @ map strftime ws @ map strftime ms)"
    "card (set (map strftime ds @ map strftime ws @ map strftime ms)) = 14"
    by (elim exE conjE) (rule that)
  then have t: "\<exists>ds ws ms.
      save_days ''1000-01-29'' = Inr (map strftime ds @ map strftime ws @ map strftime ms) \<and>
      length ds = 7 \<and> length ws = 4 \<and> length ms = 3 \<and>
      set (map strftime ds) \<inter> set (map strftime ws) = {} \<and>
      set (map strftime ds) \<inter> set (map strftime ms) = {} \<and>
      set (map strftime ws) \<inter> set (map strftime ms) = {} \<and>
      distinct (map strftime ds @ map strftime ws @ map strftime ms) \<and>
      card (set (map strftime ds @ map strftime ws @ map strftime ms)) = 14"
    by (intro exI conjI)
  have e: "save_days ''1000-01-29'' =
     Inr [''1000-01-29'', ''1000-01-28'', ''1000-01-27'', ''1000-01-26'', ''1000-01-25'',
          ''1000-01-24'', ''1000-01-23'',
          ''1000-01-22'', ''1000-01-15'', ''1000-01-08'', ''1000-01-01'',
          ''999-12-01'', ''999-11-01'', ''999-10-01'']" by code_simp
  show ?thesis using p r t e by (intro conjI)
qed

theorem no_retention_set_on_1000_01_28:
  "strptime ''1000-01-28'' = Inr \<lparr>year = 1000, month = 1, day = 28\<rparr> \<and>
   valid_date \<lparr>year = 1000, month = 1, day = 28\<rparr> \<and>
   generate_weekly ''1000-01-22'' =
     Inr [''1000-01-15'', ''1000-01-08'', ''1000-01-01'', ''999-12-22''] \<and>
   generate_monthly ''999-12-22'' = Inl ValueError \<and>
   save_days ''1000-01-28'' = Inl ValueError"
  by code_simp

text \<open>
  C5. The retention set of \<open>save_days\<close> has exactly fourteen dates, for every reference
  date from 1000-01-29 on. Its size does not depend on the reference date: no two runs
  of \<open>save_days\<close> return sets of different sizes, for the monthly tier is computed from
  the oldest weekly date and lies strictly before the weekly tier. Nor is there a set
  for every valid reference date: 1000-01-29 is the first for which \<open>save_days\<close>
  returns, and for 1000-01-28 it raises \<open>ValueError\<close>.
\<close>

theorem retention_set_has_fourteen_dates:
  assumes "strptime s = Inr D"
    and "toordinal \<lparr>year = 1000, month = 1, day = 29\<rparr> \<le> toordinal D"
  shows "\<exists>r. save_days s = Inr r \<and> length r = 14 \<and> card (set r) = 14"
proof -
  obtain r where r: "save_days s = Inr r" using save_days_returns [OF assms] by blast
  note sd = save_days_distinct [OF r]
  have "card (set r) = length r" using sd by (intro distinct_card) simp
  then show ?thesis using r sd by auto
qed

theorem retention_set_has_fourteen_dates_witness:
  "strptime ''2024-03-15'' = Inr \<lparr>year = 2024, month = 3, day = 15\<rparr> \<and>
   toordinal \<lparr>year = 1000, month = 1, day = 29\<rparr> \<le> toordinal \<lparr>year = 2024, month = 3, day = 15\<rparr> \<and>
   (\<exists>r. save_days ''2024-03-15'' = Inr r \<and> length r = 14 \<and> card (set r) = 14) \<and>
   save_days ''2024-03-15'' =
     Inr [''2024-03-15'', ''2024-03-14'', ''2024-03-13'', ''2024-03-12'', ''2024-03-11'',
          ''2024-03-10'', ''2024-03-09'',
          ''2024-03-08'', ''2024-03-01'', ''2024-02-22'', ''2024-02-15'',
          ''2024-02-01'', ''2024-01-01'', ''2023-12-01'']"
proof -
  let ?D = "\<lparr>year = 2024, month = 3, day = 15\<rparr>"
  have p: "strptime ''2024-03-15'' = Inr ?D" by code_simp
  have "toordinal ?D = 738960" by code_simp
  then have r: "toordinal \<lparr>year = 1000, month = 1, day = 29\<rparr> \<le> toordinal ?D"
    by (simp add: ordinal_in_january_1000)
  note t = retention_set_has_fourteen_dates [OF p r]
  have e: "save_days ''2024-03-15'' =
     Inr [''2024-03-15'', ''2024-03-14'', ''2024-03-13'', ''2024-03-12'', ''2024-03-11'',
          ''2024-03-10'', ''2024-03-09'',
          ''2024-03-08'', ''2024-03-01'', ''2024-02-22'', ''2024-02-15'',
          ''2024-02-01'', ''2024-01-01'', ''2023-12-01'']" by code_simp
  show ?thesis using p r t e by (intro conjI)
qed

theorem retention_set_size_never_varies:
  "strptime ''1000-01-28'' = Inr \<lparr>year = 1000, month = 1, day = 28\<rparr> \<and>
   save_days ''1000-01-28'' = Inl ValueError \<and>
   \<not> (\<exists>s s' r r'. save_days s = Inr r \<and> save_days s' = Inr r' \<and>
         card (set r) \<noteq> card (set r'))"
proof -
  have "card (set r) = 14" if "save_days s = Inr r" for s r
    using save_days_distinct [OF that] distinct_card [of r] by simp
  then have "\<not> (\<exists>s s' r r'. save_days s = Inr r \<and> save_days s' = Inr r' \<and>
         card (set r) \<noteq> card (set r'))"
    by fastforce
  moreover have "strptime ''1000-01-28'' = Inr \<lparr>year = 1000, month = 1, day = 28\<rparr>"
    "save_days ''1000-01-28'' = Inl ValueError" by code_simp+
  ultimately show ?thesis by (intro conjI)
qed


section \<open>The object store\<close>

text \<open>
  The script reaches the bucket through a boto3 client. The store is not part of the
  repository, so it is a parameter: a client is any two functions over a bucket state.
  \<open>list_objects_v2\<close> reads the bucket under a key prefix, from a continuation token on,
  and answers with one page; \<open>delete_objects\<close> may change the bucket and answers with
  the keys it deleted and those it could not. Either call may raise \<open>ClientError\<close>.
  The bucket name is the same in every call and is left out.

  Of a response the script reads \<open>Contents\<close> (the keys; none when the field is
  missing), \<open>IsTruncated\<close> (false when missing) and \<open>NextContinuationToken\<close>.
\<close>

record response =
  contents :: "string list"
  is_truncated :: bool
  next_token :: "string option"

record delete_response =
  deleted :: "string list"
  errors :: "string list"

record 's s3_client =
  list_objects_v2 :: "'s \<Rightarrow> string \<Rightarrow> string option \<Rightarrow> error + response"
  delete_objects :: "'s \<Rightarrow> string list \<Rightarrow> (error + delete_response) \<times> 's"

section \<open>\<open>list_s3_folders\<close>\<close>

text \<open>
  \<open>if continuation_token:\<close> sends the token only when it is neither \<open>None\<close> nor the
  empty string; otherwise the listing starts again from its first page.
\<close>

definition call_list ::
  "(string option \<Rightarrow> error + response) \<Rightarrow> string option \<Rightarrow> error + response" where
  "call_list lst token =
     (case token of
        None \<Rightarrow> lst None
      | Some t \<Rightarrow> if t = [] then lst None else lst (Some t))"

text \<open>
  The \<open>for\<close> loop over the keys of one page; \<open>m key\<close> is group 1 of \<open>re.match\<close> of the
  pattern on the key, \<open>None\<close> when the key does not match.
\<close>

definition add_folders ::
  "(string \<Rightarrow> string option) \<Rightarrow> string list \<Rightarrow> string set \<Rightarrow> string set" where
  "add_folders m keys folders =
     fold (\<lambda>key fs. case m key of None \<Rightarrow> fs | Some f \<Rightarrow> insert f fs) keys folders"

text \<open>
  The \<open>while True\<close> loop; its state is \<open>folders\<close> and \<open>continuation_token\<close>. It runs
  for as long as the store answers with truncated pages, so it need not return.
\<close>

partial_function (option) list_loop ::
  "(string \<Rightarrow> string option) \<Rightarrow> (string option \<Rightarrow> error + response) \<Rightarrow> string set \<Rightarrow>
   string option \<Rightarrow> (error + string set) option" where
  "list_loop m lst folders token =
     (case call_list lst token of
        Inl e \<Rightarrow> Some (Inl e)
      | Inr r \<Rightarrow>
          if is_truncated r
          then list_loop m lst (add_folders m (contents r) folders) (next_token r)
          else Some (Inr (add_folders m (contents r) folders)))"

text \<open>
  \<open>re_match prefix\<close> stands for \<open>re.match\<close> with the pattern built from the prefix:
  the pattern holds the prefix as it is, so what it matches depends on the characters of
  the prefix, and the function is a parameter. The result is \<open>sorted(folders)\<close>.
\<close>

definition list_s3_folders ::
  "(string \<Rightarrow> string \<Rightarrow> string option) \<Rightarrow> 's s3_client \<Rightarrow> 's \<Rightarrow> string \<Rightarrow>
   (error + string list) option" where
  "list_s3_folders re_match c st prefix =
     (case list_loop (re_match prefix) (list_objects_v2 c st prefix) {} None of
        None \<Rightarrow> None
      | Some (Inl e) \<Rightarrow> Some (Inl e)
      | Some (Inr folders) \<Rightarrow> Some (Inr (sorted_list_of_set folders)))"

text \<open>
  The match for a prefix without characters that are special in a pattern, such as the
  default \<open>databases\<close>: the key starts with the prefix, a slash, a date shaped
  \<open>dddd-dd-dd\<close> and a slash; group 1 is the date.
\<close>

definition date_shape :: "string \<Rightarrow> bool" where
  "date_shape s =
     (length s = 10 \<and>
      list_all2 (\<lambda>dash c. if dash then c = CHR ''-'' else digit_val c \<noteq> None)
        [False, False, False, False, True, False, False, True, False, False] s)"

definition folder_of :: "string \<Rightarrow> string \<Rightarrow> string option" where
  "folder_of prefix key =
     (let n = length prefix
      in if take n key = prefix \<and> take 1 (drop n key) = ''/'' \<and>
            date_shape (take 10 (drop (n + 1) key)) \<and> take 1 (drop (n + 11) key) = ''/''
         then Some (take 10 (drop (n + 1) key)) else None)"

text \<open>
  A listing in pages: the call with the given token answers with the first page, and
  every page but the last is truncated and names a token, not empty, under which the
  rest is served.
\<close>

fun serves :: "(string option \<Rightarrow> error + response) \<Rightarrow> string option \<Rightarrow> string list list \<Rightarrow> bool" where
  "serves lst token [] = False"
| "serves lst token [p] =
     (case lst token of Inl e \<Rightarrow> False | Inr r \<Rightarrow> contents r = p \<and> \<not> is_truncated r)"
| "serves lst token (p # q # ps) =
     (case lst token of
        Inl e \<Rightarrow> False
      | Inr r \<Rightarrow>
          contents r = p \<and> is_truncated r \<and>
          (case next_token r of None \<Rightarrow> False | Some t \<Rightarrow> t \<noteq> [] \<and> serves lst (Some t) (q # ps)))"

text \<open>An in-memory bucket for the examples: its state is the sorted list of its keys.
  A page holds at most \<open>n\<close> keys and the token is the last key served. A delete request
  removes the keys it names, except the locked ones, which it reports as errors; it is
  refused when it names a key of \<open>denied\<close>.\<close>

definition memory_client :: "nat \<Rightarrow> string list \<Rightarrow> string list \<Rightarrow> string list s3_client" where
  "memory_client n locked denied =
     \<lparr>list_objects_v2 = (\<lambda>st prefix token.
        let ks = filter (\<lambda>k. take (length prefix) k = prefix \<and>
                   (case token of None \<Rightarrow> True | Some t \<Rightarrow> t < k)) st
        in Inr \<lparr>contents = take n ks, is_truncated = (n < length ks),
                next_token = (if n < length ks then Some (last (take n ks)) else None)\<rparr>),
      delete_objects = (\<lambda>st ks.
        if \<exists>k \<in> set ks. k \<in> set denied then (Inl ClientError, st)
        else (Inr \<lparr>deleted = filter (\<lambda>k. k \<notin> set locked) ks,
                   errors = filter (\<lambda>k. k \<in> set locked) ks\<rparr>,
              filter (\<lambda>k. \<not> (k \<in> set ks \<and> k \<notin> set locked)) st))\<rparr>"

lemma add_folders_append:
  "add_folders m (xs @ ys) F = add_folders m ys (add_folders m xs F)"
  by (simp add: add_folders_def)

lemma add_folders_set: "add_folders m keys F = F \<union> set (List.map_filter m keys)"
proof (induction keys arbitrary: F)
  case Nil
  show ?case by (simp add: add_folders_def map_filter_simps)
next
  case (Cons k ks)
  have "add_folders m (k # ks) F =
      add_folders m ks (case m k of None \<Rightarrow> F | Some f \<Rightarrow> insert f F)"
    by (simp add: add_folders_def)
  then show ?case by (cases "m k") (auto simp: Cons.IH map_filter_simps)
qed

lemma list_loop_pages:
  "serves lst token pages \<Longrightarrow> call_list lst token = lst token \<Longrightarrow>
   list_loop m lst F token = Some (Inr (add_folders m (concat pages) F))"
proof (induction pages arbitrary: token F)
  case Nil
  then show ?case by simp
next
  case (Cons p ps)
  show ?case
  proof (cases ps)
    case Nil
    with Cons.prems obtain r where r: "lst token = Inr r" "contents r = p" "\<not> is_truncated r"
      by (cases "lst token") auto
    show ?thesis
      by (subst list_loop.simps) (simp add: Cons.prems(2) r Nil)
  next
    case (Cons q qs)
    with Cons.prems obtain r t where r: "lst token = Inr r" "contents r = p" "is_truncated r"
      "next_token r = Some t" "t \<noteq> []" "serves lst (Some t) ps"
      by (cases "lst token") (auto split: option.splits)
    have "call_list lst (Some t) = lst (Some t)" using r(5) by (simp add: call_list_def)
    from Cons.IH [OF r(6) this]
    have "list_loop m lst (add_folders m p F) (Some t) =
        Some (Inr (add_folders m (concat ps) (add_folders m p F)))" .
    then show ?thesis
      by (subst list_loop.simps) (simp add: Cons.prems(2) r add_folders_append)
  qed
qed

lemma list_s3_folders_pages:
  assumes "serves (list_objects_v2 c st prefix) None pages"
  shows "list_s3_folders re_match c st prefix =
    Some (Inr (sorted_list_of_set (set (List.map_filter (re_match prefix) (concat pages)))))"
proof -
  have "call_list (list_objects_v2 c st prefix) None = list_objects_v2 c st prefix None"
    by (simp add: call_list_def)
  from list_loop_pages [OF assms this, of "re_match prefix" "{}"]
  show ?thesis by (simp add: list_s3_folders_def add_folders_set)
qed

text \<open>
  C9. A listing that the store serves in pages, each but the last truncated and naming
  the token of the next, gives \<open>list_s3_folders\<close> the same folders as a listing that
  serves the same keys in a single page: the sorted dates, each once, that the pattern
  finds in the keys. The function returns in both cases. The tokens are not empty: the
  loop sends a token only when it is (\<open>if continuation_token:\<close>).
\<close>

theorem paged_listing_gives_the_folders_of_one_page:
  assumes "serves (list_objects_v2 c st prefix) None pages"
    and "serves (list_objects_v2 c' st' prefix) None [concat pages]"
  shows "list_s3_folders re_match c st prefix = list_s3_folders re_match c' st' prefix \<and>
    list_s3_folders re_match c st prefix =
      Some (Inr (sorted_list_of_set (set (List.map_filter (re_match prefix) (concat pages)))))"
  using list_s3_folders_pages [OF assms(1), of re_match]
    list_s3_folders_pages [OF assms(2), of re_match] by simp

definition example_bucket :: "string list" where
  "example_bucket =
     [''databases/2024-03-01/10-00/a.sql.gz'', ''databases/2024-03-01/10-00/b.sql.gz'',
      ''databases/2024-03-02/10-00/a.sql.gz'', ''databases/2024-03-02/10-00/b.sql.gz'',
      ''databases/readme.txt'']"

theorem paged_listing_gives_the_folders_of_one_page_witness:
  "serves (list_objects_v2 (memory_client 2 [] []) example_bucket ''databases'') None
     [[''databases/2024-03-01/10-00/a.sql.gz'', ''databases/2024-03-01/10-00/b.sql.gz''],
      [''databases/2024-03-02/10-00/a.sql.gz'', ''databases/2024-03-02/10-00/b.sql.gz''],
      [''databases/readme.txt'']] \<and>
   serves (list_objects_v2 (memory_client 1000 [] []) example_bucket ''databases'') None
     [concat [[''databases/2024-03-01/10-00/a.sql.gz'', ''databases/2024-03-01/10-00/b.sql.gz''],
      [''databases/2024-03-02/10-00/a.sql.gz'', ''databases/2024-03-02/10-00/b.sql.gz''],
      [''databases/readme.txt'']]] \<and>
   list_s3_folders folder_of (memory_client 2 [] []) example_bucket ''databases'' =
     list_s3_folders folder_of (memory_client 1000 [] []) example_bucket ''databases'' \<and>
   list_s3_folders folder_of (memory_client 2 [] []) example_bucket ''databases'' =
     Some (Inr [''2024-03-01'', ''2024-03-02''])"
proof -
  let ?pages = "[[''databases/2024-03-01/10-00/a.sql.gz'', ''databases/2024-03-01/10-00/b.sql.gz''],
      [''databases/2024-03-02/10-00/a.sql.gz'', ''databases/2024-03-02/10-00/b.sql.gz''],
      [''databases/readme.txt'']]"
  have a: "serves (list_objects_v2 (memory_client 2 [] []) example_bucket ''databases'') None ?pages"
    by code_simp
  have b: "serves (list_objects_v2 (memory_client 1000 [] []) example_bucket ''databases'') None
     [concat ?pages]"
    by code_simp
  note t = paged_listing_gives_the_folders_of_one_page [OF a b, of folder_of]
  have v: "sorted_list_of_set (set (List.map_filter (folder_of ''databases'') (concat ?pages))) =
      [''2024-03-01'', ''2024-03-02'']"
    by code_simp
  have e: "list_s3_folders folder_of (memory_client 2 [] []) example_bucket ''databases'' =
     Some (Inr [''2024-03-01'', ''2024-03-02''])"
    using conjunct2 [OF t] unfolding v .
  show ?thesis using a b conjunct1 [OF t] e by (intro conjI)
qed


section \<open>The run of the script\<close>

text \<open>
  The upload loop: \<open>exit_status\<close> starts at 0 and becomes -1 at every upload whose
  return code is not 0; the loop goes on to the next database either way.
\<close>

definition upload_status :: "int list \<Rightarrow> int" where
  "upload_status returncodes =
     fold (\<lambda>returncode exit_status. if returncode \<noteq> 0 then - 1 else exit_status) returncodes 0"

text \<open>
  The requests of the deletion loop, in the order they are sent. A delete request is
  noted with the folder the loop sends it for and with the keys it names.
\<close>

datatype request = ListObjects string | DeleteObjects string "string list"

text \<open>
  The deletion loop over \<open>existing_folders\<close>. For a folder that is not kept, the
  argument of \<open>delete_objects\<close> is evaluated first: one call of \<open>list_objects_v2\<close>,
  without a token, whose keys all go into one delete request. \<open>delete_response\<close> is
  assigned and not read. Nothing catches an exception: it ends the loop, and the result
  holds it with the bucket and the requests up to there.
\<close>

fun reconcile ::
  "'s s3_client \<Rightarrow> string \<Rightarrow> string set \<Rightarrow> string list \<Rightarrow> 's \<Rightarrow> request list \<Rightarrow>
   error option \<times> 's \<times> request list" where
  "reconcile c dest keep_folders [] st log = (None, st, log)"
| "reconcile c dest keep_folders (folder # rest) st log =
     (if folder \<notin> keep_folders then
        (case list_objects_v2 c st (dest @ ''/'' @ folder @ ''/'') None of
           Inl e \<Rightarrow> (Some e, st, log @ [ListObjects (dest @ ''/'' @ folder @ ''/'')])
         | Inr r \<Rightarrow>
             (case delete_objects c st (contents r) of
                (Inl e, st') \<Rightarrow>
                  (Some e, st',
                   log @ [ListObjects (dest @ ''/'' @ folder @ ''/''),
                          DeleteObjects folder (contents r)])
              | (Inr delete_response, st') \<Rightarrow>
                  reconcile c dest keep_folders rest st'
                    (log @ [ListObjects (dest @ ''/'' @ folder @ ''/''),
                            DeleteObjects folder (contents r)])))
      else reconcile c dest keep_folders rest st log)"

text \<open>
  The script from the retention policy on: the folders of the bucket, the dates to keep,
  the deletion loop, and \<open>sys.exit(exit_status)\<close>. An exception that nothing catches
  ends the script. The result is \<open>None\<close> when the listing does not return.
\<close>

datatype outcome = Exit int | Uncaught error

definition run_retention ::
  "(string \<Rightarrow> string \<Rightarrow> string option) \<Rightarrow> 's s3_client \<Rightarrow> string \<Rightarrow> string \<Rightarrow> int \<Rightarrow> 's \<Rightarrow>
   (outcome \<times> 's \<times> request list) option" where
  "run_retention re_match c dest date exit_status st =
     (case list_s3_folders re_match c st dest of
        None \<Rightarrow> None
      | Some (Inl e) \<Rightarrow> Some (Uncaught e, st, [])
      | Some (Inr existing_folders) \<Rightarrow>
          (case save_days date of
             Inl e \<Rightarrow> Some (Uncaught e, st, [])
           | Inr keep_dates \<Rightarrow>
               (case reconcile c dest (set keep_dates) existing_folders st [] of
                  (Some e, st', log) \<Rightarrow> Some (Uncaught e, st', log)
                | (None, st', log) \<Rightarrow> Some (Exit exit_status, st', log))))"

section \<open>Reconciliation\<close>

definition deleted_folders :: "request list \<Rightarrow> string set" where
  "deleted_folders log =
     set (concat (map (\<lambda>q. case q of ListObjects p \<Rightarrow> [] | DeleteObjects f ks \<Rightarrow> [f]) log))"

lemma deleted_folders_append:
  "deleted_folders (xs @ ys) = deleted_folders xs \<union> deleted_folders ys"
  by (simp add: deleted_folders_def)

lemma deleted_folders_step:
  "deleted_folders (log @ [ListObjects p, DeleteObjects f ks]) = insert f (deleted_folders log)"
  "deleted_folders (log @ [ListObjects p]) = deleted_folders log"
  by (simp_all add: deleted_folders_def)

lemma reconcile_deletes:
  "reconcile c dest keep existing st log = (e, st', log') \<Longrightarrow>
   deleted_folders log' \<subseteq> deleted_folders log \<union> (set existing - keep)"
proof (induction c dest keep existing st log rule: reconcile.induct)
  case (1 c dest keep st log)
  then show ?case by simp
next
  case (2 c dest keep folder rest st log)
  show ?case
  proof (cases "folder \<in> keep")
    case True
    with "2.prems" have "reconcile c dest keep rest st log = (e, st', log')" by simp
    from "2.IH"(2) [OF _ this] True show ?thesis by auto
  next
    case False
    show ?thesis
    proof (cases "list_objects_v2 c st (dest @ ''/'' @ folder @ ''/'') None")
      case (Inl x)
      with "2.prems" False show ?thesis by (auto simp: deleted_folders_step)
    next
      case (Inr r)
      obtain y st1 where d: "delete_objects c st (contents r) = (y, st1)"
        by (cases "delete_objects c st (contents r)")
      show ?thesis
      proof (cases y)
        case (Inl x)
        with "2.prems" False Inr d show ?thesis by (auto simp: deleted_folders_step)
      next
        case y: (Inr dr)
        with "2.prems" False Inr d
        have "reconcile c dest keep rest st1
            (log @ [ListObjects (dest @ ''/'' @ folder @ ''/''), DeleteObjects folder (contents r)]) =
            (e, st', log')" by simp
        from "2.IH"(1) [OF False Inr d [symmetric] y this] False
        show ?thesis by (auto simp: deleted_folders_step)
      qed
    qed
  qed
qed

text \<open>
  C2. Whatever the store answers, whatever folders exist and whatever dates are kept,
  the deletion loop sends no delete request for a kept folder: the folders of its delete
  requests are disjoint from the keep set.
\<close>

theorem reconciliation_spares_the_keep_set:
  "deleted_folders (snd (snd (reconcile c dest keep_folders existing_folders st []))) \<inter>
     keep_folders = {}"
proof -
  obtain e st' log' where r: "reconcile c dest keep_folders existing_folders st [] = (e, st', log')"
    by (cases "reconcile c dest keep_folders existing_folders st []")
  from reconcile_deletes [OF r] have "deleted_folders log' \<subseteq> set existing_folders - keep_folders"
    by (simp add: deleted_folders_def)
  then show ?thesis unfolding r by auto
qed

theorem reconciliation_spares_the_keep_set_witness:
  "deleted_folders (snd (snd (reconcile (memory_client 1000 [] []) ''databases''
      {''2024-03-02''} [''2024-03-01'', ''2024-03-02''] example_bucket []))) \<inter>
     {''2024-03-02''} = {} \<and>
   reconcile (memory_client 1000 [] []) ''databases'' {''2024-03-02''}
      [''2024-03-01'', ''2024-03-02''] example_bucket [] =
     (None,
      [''databases/2024-03-02/10-00/a.sql.gz'', ''databases/2024-03-02/10-00/b.sql.gz'',
       ''databases/readme.txt''],
      [ListObjects ''databases/2024-03-01/'',
       DeleteObjects ''2024-03-01''
         [''databases/2024-03-01/10-00/a.sql.gz'', ''databases/2024-03-01/10-00/b.sql.gz'']])"
proof -
  have "reconcile (memory_client 1000 [] []) ''databases'' {''2024-03-02''}
      [''2024-03-01'', ''2024-03-02''] example_bucket [] =
     (None,
      [''databases/2024-03-02/10-00/a.sql.gz'', ''databases/2024-03-02/10-00/b.sql.gz'',
       ''databases/readme.txt''],
      [ListObjects ''databases/2024-03-01/'',
       DeleteObjects ''2024-03-01''
         [''databases/2024-03-01/10-00/a.sql.gz'', ''databases/2024-03-01/10-00/b.sql.gz'']])"
    by code_simp
  then show ?thesis
    using reconciliation_spares_the_keep_set [of "memory_client 1000 [] []" "''databases''"
        "{''2024-03-02''}" "[''2024-03-01'', ''2024-03-02'']" example_bucket]
    by (intro conjI)
qed


section \<open>Folders with more keys than a page holds\<close>

text \<open>
  A bucket with one folder of \<open>n\<close> objects, their keys in ascending order, for the
  examples.
\<close>

definition object_key :: "nat \<Rightarrow> string" where
  "object_key i = ''databases/2020-01-01/'' @ ''10-00/db'' @ zfill4 (int i) @ ''.sql.gz''"

definition large_folder :: "nat \<Rightarrow> string list" where
  "large_folder n = map object_key [0..<n]"

lemma zfill4_inj:
  assumes "zfill4 a = zfill4 b" "0 \<le> a" "a \<le> 9999" "0 \<le> b" "b \<le> 9999"
  shows "a = b"
proof -
  have "Some a = parse_year (zfill4 a)" using assms(2,3) by (simp only: parse_year_zfill4)
  also have "\<dots> = parse_year (zfill4 b)" by (simp only: assms(1))
  also have "\<dots> = Some b" using assms(4,5) by (simp only: parse_year_zfill4)
  finally show ?thesis by simp
qed

lemma object_key_inj: "object_key i = object_key j \<Longrightarrow> i < 10000 \<Longrightarrow> j < 10000 \<Longrightarrow> i = j"
proof -
  assume a: "object_key i = object_key j" "i < 10000" "j < 10000"
  then have "zfill4 (int i) = zfill4 (int j)" by (simp add: object_key_def zfill4_def)
  then have "int i = int j" using a(2,3) by (intro zfill4_inj) simp_all
  then show ?thesis by simp
qed

lemma large_folder_Suc: "large_folder (Suc n) = large_folder n @ [object_key n]"
  by (simp add: large_folder_def)

lemma large_folder_new_key:
  assumes "n < 10000"
  shows "object_key n \<notin> set (large_folder n)"
proof
  assume "object_key n \<in> set (large_folder n)"
  then obtain i where i: "i < n" "object_key n = object_key i"
    by (auto simp: large_folder_def)
  then have "n = i" using assms by (intro object_key_inj) simp_all
  then show False using i(1) by simp
qed

lemma large_folder_prefix:
  "filter (\<lambda>k. take (length ''databases/2020-01-01/'') k = ''databases/2020-01-01/'' \<and> True)
     (large_folder n) = large_folder n"
  by (simp add: large_folder_def object_key_def filter_map o_def)

lemma large_folder_listing:
  "list_objects_v2 (memory_client n locked denied) (large_folder (Suc n))
     ''databases/2020-01-01/'' None =
   Inr \<lparr>contents = large_folder n, is_truncated = True,
        next_token = Some (last (large_folder n))\<rparr>"
proof -
  have l: "length (large_folder k) = k" for k by (simp add: large_folder_def)
  have t: "take n (large_folder (Suc n)) = large_folder n"
    by (simp add: large_folder_Suc l)
  have "list_objects_v2 (memory_client n locked denied) (large_folder (Suc n))
     ''databases/2020-01-01/'' None =
    (let ks = large_folder (Suc n)
     in Inr \<lparr>contents = take n ks, is_truncated = (n < length ks),
             next_token = (if n < length ks then Some (last (take n ks)) else None)\<rparr>)"
    unfolding memory_client_def using large_folder_prefix [of "Suc n"] by simp
  then show ?thesis by (simp add: Let_def t l)
qed

lemma large_folder_delete:
  assumes "n < 10000"
  shows "delete_objects (memory_client m [] []) (large_folder (Suc n)) (large_folder n) =
    (Inr \<lparr>deleted = large_folder n, errors = []\<rparr>, [object_key n])"
proof -
  have "filter (\<lambda>k. k \<notin> set (large_folder n)) (large_folder n) = []" by simp
  then have "filter (\<lambda>k. k \<notin> set (large_folder n)) (large_folder (Suc n)) = [object_key n]"
    using large_folder_new_key [OF assms] by (simp add: large_folder_Suc)
  then show ?thesis by (simp add: memory_client_def)
qed

text \<open>
  C3. The deletion loop does not list all the keys of a folder: it calls
  \<open>list_objects_v2\<close> once, without a token, and does not read \<open>IsTruncated\<close>. When the
  store answers with a truncated page, the one delete request names the keys of that
  page and nothing is sent for the rest of the folder; S3 serves at most 1000 keys a
  page, so of a folder of 1001 objects the last one stays. \<open>list_s3_folders\<close> follows
  the continuation tokens of the same call.
\<close>

theorem truncated_folder_listing_is_deleted_in_part:
  assumes "folder \<notin> keep_folders"
    and "list_objects_v2 c st (dest @ ''/'' @ folder @ ''/'') None = Inr r"
    and "is_truncated r"
    and "delete_objects c st (contents r) = (Inr d, st')"
  shows "reconcile c dest keep_folders [folder] st [] =
    (None, st',
     [ListObjects (dest @ ''/'' @ folder @ ''/''), DeleteObjects folder (contents r)])"
  using assms by simp

theorem truncated_folder_listing_is_deleted_in_part_witness:
  "''2020-01-01'' \<notin> ({} :: string set) \<and>
   list_objects_v2 (memory_client 1000 [] []) (large_folder 1001) ''databases/2020-01-01/'' None =
     Inr \<lparr>contents = large_folder 1000, is_truncated = True,
          next_token = Some (last (large_folder 1000))\<rparr> \<and>
   delete_objects (memory_client 1000 [] []) (large_folder 1001) (large_folder 1000) =
     (Inr \<lparr>deleted = large_folder 1000, errors = []\<rparr>, [object_key 1000]) \<and>
   reconcile (memory_client 1000 [] []) ''databases'' {} [''2020-01-01''] (large_folder 1001) [] =
     (None, [object_key 1000],
      [ListObjects ''databases/2020-01-01/'', DeleteObjects ''2020-01-01'' (large_folder 1000)]) \<and>
   length (large_folder 1001) = 1001 \<and> length (large_folder 1000) = 1000 \<and>
   object_key 1000 = ''databases/2020-01-01/10-00/db1000.sql.gz''"
proof -
  let ?c = "memory_client 1000 [] [] :: string list s3_client"
  let ?r = "\<lparr>contents = large_folder 1000, is_truncated = True,
          next_token = Some (last (large_folder 1000))\<rparr>"
  have n: "(1001::nat) = Suc 1000" by simp
  have k: "''2020-01-01'' \<notin> ({} :: string set)" by simp
  have p: "''databases'' @ ''/'' @ ''2020-01-01'' @ ''/'' = ''databases/2020-01-01/''" by simp
  have l: "list_objects_v2 ?c (large_folder 1001) ''databases/2020-01-01/'' None = Inr ?r"
    unfolding n by (rule large_folder_listing)
  have d: "delete_objects ?c (large_folder 1001) (large_folder 1000) =
     (Inr \<lparr>deleted = large_folder 1000, errors = []\<rparr>, [object_key 1000])"
    unfolding n by (rule large_folder_delete) simp
  have "reconcile ?c ''databases'' {} [''2020-01-01''] (large_folder 1001) [] =
     (None, [object_key 1000],
      [ListObjects (''databases'' @ ''/'' @ ''2020-01-01'' @ ''/''),
       DeleteObjects ''2020-01-01'' (contents ?r)])"
  proof (rule truncated_folder_listing_is_deleted_in_part)
    show "''2020-01-01'' \<notin> ({} :: string set)" by (rule k)
    show "list_objects_v2 ?c (large_folder 1001) (''databases'' @ ''/'' @ ''2020-01-01'' @ ''/'') None =
      Inr ?r" unfolding p by (rule l)
    show "is_truncated ?r" by simp
    show "delete_objects ?c (large_folder 1001) (contents ?r) =
      (Inr \<lparr>deleted = large_folder 1000, errors = []\<rparr>, [object_key 1000])"
      using d by simp
  qed
  then have e: "reconcile ?c ''databases'' {} [''2020-01-01''] (large_folder 1001) [] =
     (None, [object_key 1000],
      [ListObjects ''databases/2020-01-01/'', DeleteObjects ''2020-01-01'' (large_folder 1000)])"
    unfolding p by simp
  have s: "length (large_folder 1001) = 1001" "length (large_folder 1000) = 1000"
    by (simp_all add: large_folder_def)
  have o: "object_key 1000 = ''databases/2020-01-01/10-00/db1000.sql.gz''"
    by (simp add: object_key_def zfill4_def digit_char_def digits_def)
  show ?thesis using k l d e s o by (intro conjI)
qed

section \<open>Deletions that fail\<close>

definition stale_bucket :: "string list" where
  "stale_bucket =
     [''databases/2024-03-02/10-00/a.sql.gz'', ''databases/2024-03-03/10-00/a.sql.gz'',
      ''databases/2024-03-14/10-00/a.sql.gz'']"

lemma stale_bucket_folders:
  "list_s3_folders folder_of (memory_client 1000 locked denied) stale_bucket ''databases'' =
     Some (Inr [''2024-03-02'', ''2024-03-03'', ''2024-03-14''])"
proof -
  have "serves (list_objects_v2 (memory_client 1000 locked denied) stale_bucket ''databases'') None
      [stale_bucket]" by code_simp
  from list_s3_folders_pages [OF this, of folder_of]
  have "list_s3_folders folder_of (memory_client 1000 locked denied) stale_bucket ''databases'' =
    Some (Inr (sorted_list_of_set
      (set (List.map_filter (folder_of ''databases'') (concat [stale_bucket])))))" .
  also have "sorted_list_of_set
      (set (List.map_filter (folder_of ''databases'') (concat [stale_bucket]))) =
      [''2024-03-02'', ''2024-03-03'', ''2024-03-14'']" by code_simp
  finally show ?thesis .
qed

lemma keep_dates_2024_03_15:
  "save_days ''2024-03-15'' =
     Inr [''2024-03-15'', ''2024-03-14'', ''2024-03-13'', ''2024-03-12'', ''2024-03-11'',
          ''2024-03-10'', ''2024-03-09'',
          ''2024-03-08'', ''2024-03-01'', ''2024-02-22'', ''2024-02-15'',
          ''2024-02-01'', ''2024-01-01'', ''2023-12-01'']"
  by code_simp

text \<open>
  C4. A deletion that fails is not recorded and does not reach the exit status. When
  the store answers a delete request with errors for its keys, the loop goes on, the
  objects stay, and the script exits with the status the uploads left: 0 when they all
  succeeded. When \<open>delete_objects\<close> raises, nothing catches the exception: the script
  ends there and the folders after that one are not attempted. The upload loop does
  record its failures: one failed upload makes the exit status -1.
\<close>

theorem failed_deletion_is_not_reported:
  "upload_status [0, 0] = 0 \<and>
   delete_objects (memory_client 1000 [''databases/2024-03-02/10-00/a.sql.gz''] []) stale_bucket
       [''databases/2024-03-02/10-00/a.sql.gz''] =
     (Inr \<lparr>deleted = [], errors = [''databases/2024-03-02/10-00/a.sql.gz'']\<rparr>, stale_bucket) \<and>
   run_retention folder_of (memory_client 1000 [''databases/2024-03-02/10-00/a.sql.gz''] [])
       ''databases'' ''2024-03-15'' (upload_status [0, 0]) stale_bucket =
     Some (Exit 0,
           [''databases/2024-03-02/10-00/a.sql.gz'', ''databases/2024-03-14/10-00/a.sql.gz''],
           [ListObjects ''databases/2024-03-02/'',
            DeleteObjects ''2024-03-02'' [''databases/2024-03-02/10-00/a.sql.gz''],
            ListObjects ''databases/2024-03-03/'',
            DeleteObjects ''2024-03-03'' [''databases/2024-03-03/10-00/a.sql.gz'']]) \<and>
   run_retention folder_of (memory_client 1000 [] [''databases/2024-03-02/10-00/a.sql.gz''])
       ''databases'' ''2024-03-15'' (upload_status [0, 0]) stale_bucket =
     Some (Uncaught ClientError, stale_bucket,
           [ListObjects ''databases/2024-03-02/'',
            DeleteObjects ''2024-03-02'' [''databases/2024-03-02/10-00/a.sql.gz'']]) \<and>
   upload_status [0, 1, 0] = - 1"
proof -
  let ?k = "''databases/2024-03-02/10-00/a.sql.gz''"
  let ?keep = "[''2024-03-15'', ''2024-03-14'', ''2024-03-13'', ''2024-03-12'', ''2024-03-11'',
          ''2024-03-10'', ''2024-03-09'',
          ''2024-03-08'', ''2024-03-01'', ''2024-02-22'', ''2024-02-15'',
          ''2024-02-01'', ''2024-01-01'', ''2023-12-01'']"
  have u: "upload_status [0, 0] = 0" "upload_status [0, 1, 0] = - 1"
    by (simp_all add: upload_status_def)
  have d: "delete_objects (memory_client 1000 [?k] []) stale_bucket [?k] =
     (Inr \<lparr>deleted = [], errors = [?k]\<rparr>, stale_bucket)" by code_simp
  have r1: "reconcile (memory_client 1000 [?k] []) ''databases'' (set ?keep)
      [''2024-03-02'', ''2024-03-03'', ''2024-03-14''] stale_bucket [] =
     (None, [?k, ''databases/2024-03-14/10-00/a.sql.gz''],
           [ListObjects ''databases/2024-03-02/'', DeleteObjects ''2024-03-02'' [?k],
            ListObjects ''databases/2024-03-03/'',
            DeleteObjects ''2024-03-03'' [''databases/2024-03-03/10-00/a.sql.gz'']])"
    by code_simp
  have r2: "reconcile (memory_client 1000 [] [?k]) ''databases'' (set ?keep)
      [''2024-03-02'', ''2024-03-03'', ''2024-03-14''] stale_bucket [] =
     (Some ClientError, stale_bucket,
           [ListObjects ''databases/2024-03-02/'', DeleteObjects ''2024-03-02'' [?k]])"
    by code_simp
  have e1: "run_retention folder_of (memory_client 1000 [?k] [])
       ''databases'' ''2024-03-15'' (upload_status [0, 0]) stale_bucket =
     Some (Exit 0, [?k, ''databases/2024-03-14/10-00/a.sql.gz''],
           [ListObjects ''databases/2024-03-02/'', DeleteObjects ''2024-03-02'' [?k],
            ListObjects ''databases/2024-03-03/'',
            DeleteObjects ''2024-03-03'' [''databases/2024-03-03/10-00/a.sql.gz'']])"
    by (simp only: run_retention_def stale_bucket_folders keep_dates_2024_03_15 r1 u
        option.case sum.case prod.case)
  have e2: "run_retention folder_of (memory_client 1000 [] [?k])
       ''databases'' ''2024-03-15'' (upload_status [0, 0]) stale_bucket =
     Some (Uncaught ClientError, stale_bucket,
           [ListObjects ''databases/2024-03-02/'', DeleteObjects ''2024-03-02'' [?k]])"
    by (simp only: run_retention_def stale_bucket_folders keep_dates_2024_03_15 r2 u
        option.case sum.case prod.case)
  show ?thesis using u(1) d e1 e2 u(2) by (intro conjI)
qed

end
